theory Spec2Isabelle
  imports Complex_Main "HOL-Library.Word" "HOL-Library.Log_Nat"
begin

unbundle bit_operations_syntax

section \<open>Block-state descriptors (blockColors.js)\<close>

text \<open>
  A block-state descriptor is a JavaScript string such as
  \<open>minecraft:oak_stairs[facing=north]\<close>; \<open>null\<close> is \<open>None\<close>. Descriptors are taken over
  ASCII, so \<open>toLowerCase\<close> only moves \<open>A\<close>..\<open>Z\<close>.
\<close>

text \<open>An upper-case letter (code 65..90) has bit 5 clear; setting it adds 32.\<close>

definition toLowerChar :: "char \<Rightarrow> char" where
  "toLowerChar c =
     (if 65 \<le> (of_char c :: nat) \<and> (of_char c :: nat) \<le> 90
      then (case c of Char b0 b1 b2 b3 b4 b5 b6 b7 \<Rightarrow> Char b0 b1 b2 b3 b4 True b6 b7)
      else c)"

definition toLowerCase :: "string \<Rightarrow> string" where
  "toLowerCase s = map toLowerChar s"

text \<open>\<open>s.split('[')[0]\<close>: the part of \<open>s\<close> before its first opening bracket.\<close>

definition splitHead :: "string \<Rightarrow> string" where
  "splitHead s = takeWhile (\<lambda>c. c \<noteq> CHR ''['') s"

text \<open>\<open>s.replace(pat, '')\<close> with a string pattern: the first occurrence only is removed.\<close>

fun removeFirst :: "string \<Rightarrow> string \<Rightarrow> string" where
  "removeFirst pat [] = []"
| "removeFirst pat (c # cs) =
     (if take (length pat) (c # cs) = pat then drop (length pat) (c # cs)
      else c # removeFirst pat cs)"

text \<open>\<open>!blockState\<close> holds of \<open>null\<close> and of the empty string.\<close>

definition falsy :: "string option \<Rightarrow> bool" where
  "falsy bs = (case bs of None \<Rightarrow> True | Some s \<Rightarrow> s = [])"

definition getBaseBlockId :: "string option \<Rightarrow> string option" where
  "getBaseBlockId blockState =
     (if falsy blockState then None
      else Some (removeFirst ''minecraft:'' (toLowerCase (splitHead (the blockState)))))"

definition isAir :: "string option \<Rightarrow> bool" where
  "isAir blockState =
     (if falsy blockState then True
      else (let b = toLowerCase (splitHead (the blockState))
            in b = ''minecraft:air'' \<or> b = ''minecraft:cave_air''
               \<or> b = ''minecraft:void_air'' \<or> b = ''air''))"

section \<open>Varint decoder and the dense-varint adapter (parser.js)\<close>

text \<open>
  The messages of the JavaScript \<open>Error\<close>s thrown by the parser, one constructor each.
  \<open>InvalidArrayLength\<close> is the \<open>RangeError\<close> of \<open>new Int32Array(n)\<close> for a length the
  engine refuses, \<open>NotABigInt\<close> the \<open>TypeError\<close> of \<open>BigInt(undefined)\<close>.
\<close>

datatype error =
    UnexpectedEndOfVarint nat
  | NoPalette
  | NoBlockData
  | InvalidArrayLength
  | NoRegions
  | EmptyRegions
  | NoBlockStatePalette
  | NoBlockStates
  | NotABigInt

text \<open>
  The inner \<open>do .. while\<close> loop of \<open>decodeVarintArray\<close>. The bytes from the cursor on are
  the list; \<open>None\<close> is the throw at \<open>cursor >= bytes.length\<close>. \<open>value\<close> is a 32-bit
  integer (\<open>|=\<close> converts to int32), and \<open><<\<close> uses the shift count modulo 32.
\<close>

fun readVarint :: "8 word list \<Rightarrow> 32 word \<Rightarrow> nat \<Rightarrow> (32 word \<times> 8 word list) option" where
  "readVarint [] val shift = None"
| "readVarint (b # bs) val shift =
     (let val' = val OR push_bit (shift mod 32) (ucast (b AND 0x7F))
      in if b AND 0x80 \<noteq> 0 then readVarint bs val' (shift + 7) else Some (val', bs))"

text \<open>The outer \<open>for\<close> loop: \<open>n\<close> elements are still to be read, the next one is number \<open>i\<close>.\<close>

fun decodeVarints :: "8 word list \<Rightarrow> nat \<Rightarrow> nat \<Rightarrow> error + 32 word list" where
  "decodeVarints bytes i 0 = Inr []"
| "decodeVarints bytes i (Suc n) =
     (case readVarint bytes 0 0 of
        None \<Rightarrow> Inl (UnexpectedEndOfVarint i)
      | Some (v, rest) \<Rightarrow>
          (case decodeVarints rest (Suc i) n of
             Inl e \<Rightarrow> Inl e
           | Inr vs \<Rightarrow> Inr (v # vs)))"

text \<open>
  \<open>new Int32Array(n)\<close> for a JavaScript integer \<open>n\<close>: a \<open>RangeError\<close> when \<open>n\<close> is
  negative or beyond the largest length the engine gives an \<open>Int32Array\<close>, otherwise an
  array of \<open>n\<close> zeros, of which the model keeps the length. The engine's limit is the
  parameter \<open>maxLength\<close>.
\<close>

definition newInt32Array :: "nat \<Rightarrow> int \<Rightarrow> error + nat" where
  "newInt32Array maxLength n =
     (if n < 0 \<or> int maxLength < n then Inl InvalidArrayLength else Inr (nat n))"

text \<open>The allocation comes first, before any byte is read.\<close>

definition decodeVarintArray :: "nat \<Rightarrow> 8 word list \<Rightarrow> int \<Rightarrow> error + 32 word list" where
  "decodeVarintArray maxLength bytes expectedCount =
     (case newInt32Array maxLength expectedCount of
        Inl e \<Rightarrow> Inl e
      | Inr n \<Rightarrow> decodeVarints bytes 0 n)"

text \<open>The \<open>Schematic\<close> object both parsers return.\<close>

record schematic =
  width :: int
  height :: int
  lengthZ :: int
  name :: string
  paletteList :: "string option list"
  getBlock :: "int \<Rightarrow> int \<Rightarrow> int \<Rightarrow> string option"
  totalNonAir :: nat

text \<open>\<open>a || b\<close> on strings that may be \<open>undefined\<close>.\<close>

definition orElse :: "string option \<Rightarrow> string option \<Rightarrow> string option" where
  "orElse a b = (if falsy a then b else a)"

record metadata =
  Name :: "string option"
  name_lc :: "string option"

text \<open>
  A byte array of the tree: a typed array is a view of \<open>byteLength\<close> bytes, from
  \<open>byteOffset\<close> on, of an underlying \<open>buffer\<close>. \<open>viewBytes\<close> are the bytes of the view.
\<close>

record typedArray =
  buffer :: "8 word list"
  byteOffset :: nat
  byteLength :: nat


text \<open>
  The root compound of a \<open>.schem\<close> file (after \<open>nbtData.Schematic || nbtData\<close>). \<open>Palette\<close>
  is the list \<open>Object.entries\<close> enumerates.
\<close>

record schemRoot =
  Width :: int
  Height :: int
  Length :: int
  Metadata :: "metadata option"
  Palette :: "(string \<times> int) list option"
  BlockData :: "typedArray option"

definition schemName :: "schemRoot \<Rightarrow> string" where
  "schemName nbt =
     (case Metadata nbt of
        None \<Rightarrow> ''Unnamed''
      | Some m \<Rightarrow> the (orElse (orElse (Name m) (name_lc m)) (Some ''Unnamed'')))"

definition maxIndex :: "(string \<times> int) list \<Rightarrow> int" where
  "maxIndex paletteTag = foldl (\<lambda>a b. max a b) 0 (map snd paletteTag)"

text \<open>
  \<open>paletteList[i]\<close> after the fill with \<open>null\<close> and the assignments
  \<open>paletteList[Number(index)] = blockState\<close> in enumeration order: the last state written
  at \<open>i\<close>, \<open>None\<close> for \<open>null\<close> and \<open>undefined\<close> alike. An assignment at a negative index
  creates a property of the array that a later read of that index finds.
\<close>

definition paletteSlot :: "(string \<times> int) list \<Rightarrow> int \<Rightarrow> string option" where
  "paletteSlot paletteTag i =
     foldl (\<lambda>slot (blockState, index). if index = i then Some blockState else slot)
       None paletteTag"

definition schemPaletteList :: "(string \<times> int) list \<Rightarrow> string option list" where
  "schemPaletteList paletteTag = map (paletteSlot paletteTag) [0 .. maxIndex paletteTag]"

text \<open>The test of the \<open>forEach\<close> that fills \<open>airIndices\<close> in \<open>parseSchem\<close>.\<close>

definition schemAirState :: "string option \<Rightarrow> bool" where
  "schemAirState state =
     (falsy state \<or> state = Some ''minecraft:air'' \<or> state = Some ''minecraft:cave_air''
      \<or> state = Some ''minecraft:void_air'')"

text \<open>\<open>airIndices.has(idx)\<close>: \<open>forEach\<close> visits the indices \<open>0 .. maxIndex\<close> only.\<close>

definition schemAirIndex :: "(string \<times> int) list \<Rightarrow> int \<Rightarrow> bool" where
  "schemAirIndex paletteTag idx =
     (0 \<le> idx \<and> idx \<le> maxIndex paletteTag \<and> schemAirState (paletteSlot paletteTag idx))"

text \<open>\<open>blockIndices[index]\<close> of an \<open>Int32Array\<close>: \<open>undefined\<close> outside the array.\<close>

definition int32At :: "32 word list \<Rightarrow> int \<Rightarrow> int option" where
  "int32At blockIndices index =
     (if 0 \<le> index \<and> index < int (length blockIndices)
      then Some (sint (blockIndices ! nat index)) else None)"

text \<open>\<open>x || null\<close>: an empty string is falsy too.\<close>

definition orNull :: "string option \<Rightarrow> string option" where
  "orNull state = (if falsy state then None else state)"

definition schemIndex :: "int \<Rightarrow> int \<Rightarrow> int \<Rightarrow> int \<Rightarrow> int \<Rightarrow> int" where
  "schemIndex w l x y z = x + z * w + y * w * l"

definition schemGetBlock ::
  "int \<Rightarrow> int \<Rightarrow> int \<Rightarrow> (string \<times> int) list \<Rightarrow> 32 word list \<Rightarrow> int \<Rightarrow> int \<Rightarrow> int \<Rightarrow> string option" where
  "schemGetBlock w h l paletteTag blockIndices x y z =
     (if x < 0 \<or> x \<ge> w \<or> y < 0 \<or> y \<ge> h \<or> z < 0 \<or> z \<ge> l then None
      else (case int32At blockIndices (schemIndex w l x y z) of
              None \<Rightarrow> None
            | Some paletteIdx \<Rightarrow> orNull (paletteSlot paletteTag paletteIdx)))"

text \<open>
  \<open>new Uint8Array(blockDataRaw.buffer || blockDataRaw)\<close>: the bytes decoded are those of the
  whole underlying buffer, whatever part of it the array views.
\<close>

definition parseSchem :: "nat \<Rightarrow> schemRoot \<Rightarrow> error + schematic" where
  "parseSchem maxLength nbt =
     (case Palette nbt of
        None \<Rightarrow> Inl NoPalette
      | Some paletteTag \<Rightarrow>
          (case BlockData nbt of
             None \<Rightarrow> Inl NoBlockData
           | Some blockDataRaw \<Rightarrow>
               (case decodeVarintArray maxLength (buffer blockDataRaw)
                       (Width nbt * Height nbt * Length nbt) of
                  Inl e \<Rightarrow> Inl e
                | Inr blockIndices \<Rightarrow>
                    Inr \<lparr> width = Width nbt, height = Height nbt, lengthZ = Length nbt,
                          name = schemName nbt,
                          paletteList = schemPaletteList paletteTag,
                          getBlock = schemGetBlock (Width nbt) (Height nbt) (Length nbt)
                                       paletteTag blockIndices,
                          totalNonAir =
                            length (filter (\<lambda>v. \<not> schemAirIndex paletteTag (sint v))
                                      blockIndices) \<rparr>)))"

section \<open>Bit-packed decoder and the litematic adapter (parser.js)\<close>

record paletteEntry =
  EntryName :: string
  Properties :: "(string \<times> string) list option"

record region =
  Size :: "int \<times> int \<times> int"
  BlockStatePalette :: "paletteEntry list option"
  BlockStates :: "64 word list option"

text \<open>\<open>Regions\<close> is the list of the compound's entries in the order \<open>Object.keys\<close> gives them.\<close>

record litematicRoot =
  LitMetadata :: "metadata option"
  Regions :: "(string \<times> region) list option"

text \<open>
  The canonical descriptor of a palette entry. The order \<open>localeCompare\<close> puts on the keys
  belongs to the host: it is the parameter \<open>le\<close> (\<open>le a b\<close> for \<open>a.localeCompare(b) <= 0\<close>),
  and the sort is stable.
\<close>

fun insertProp ::
  "(string \<Rightarrow> string \<Rightarrow> bool) \<Rightarrow> string \<times> string \<Rightarrow> (string \<times> string) list \<Rightarrow> (string \<times> string) list" where
  "insertProp le p [] = [p]"
| "insertProp le p (q # qs) =
     (if le (fst p) (fst q) then p # q # qs else q # insertProp le p qs)"

definition sortProps ::
  "(string \<Rightarrow> string \<Rightarrow> bool) \<Rightarrow> (string \<times> string) list \<Rightarrow> (string \<times> string) list" where
  "sortProps le ps = foldr (insertProp le) ps []"

fun joinComma :: "string list \<Rightarrow> string" where
  "joinComma [] = []"
| "joinComma [s] = s"
| "joinComma (s # t # ts) = s @ '','' @ joinComma (t # ts)"

definition stateString :: "(string \<Rightarrow> string \<Rightarrow> bool) \<Rightarrow> paletteEntry \<Rightarrow> string" where
  "stateString le entry =
     (case Properties entry of
        None \<Rightarrow> EntryName entry
      | Some ps \<Rightarrow>
          if ps = [] then EntryName entry
          else EntryName entry @ ''['' @
               joinComma (map (\<lambda>(k, v). k @ ''='' @ v) (sortProps le ps)) @ '']'')"

text \<open>
  \<open>Math.ceil(Math.log2(n))\<close> for an array length \<open>n\<close>, in integer arithmetic (the
  floating-point logarithm is exact enough on integers below \<open>2^32\<close>); for \<open>n = 0\<close> the
  source has minus infinity, which \<open>Math.max(2, _)\<close> absorbs as it does \<open>0\<close>.
\<close>

fun ceilLog2 :: "nat \<Rightarrow> nat" where
  "ceilLog2 n = (if n \<le> 1 then 0 else Suc (ceilLog2 ((n + 1) div 2)))"

declare ceilLog2.simps [simp del]

definition bitsPerEntry :: "nat \<Rightarrow> nat" where
  "bitsPerEntry paletteLength = max 2 (ceilLog2 paletteLength)"

definition entriesPerLong :: "nat \<Rightarrow> nat" where
  "entriesPerLong bpe = 64 div bpe"

text \<open>\<open>(1n << BigInt(bitsPerEntry)) - 1n\<close>, a BigInt.\<close>

definition maskOf :: "nat \<Rightarrow> int" where
  "maskOf bpe = push_bit bpe 1 - 1"

text \<open>\<open>Math.ceil(a / b)\<close> on non-negative integers, \<open>b\<close> positive.\<close>

definition ceilDiv :: "nat \<Rightarrow> nat \<Rightarrow> nat" where
  "ceilDiv a b = (a + b - 1) div b"

definition expectedSpanning :: "nat \<Rightarrow> nat \<Rightarrow> nat" where
  "expectedSpanning totalBlocks bpe = ceilDiv (totalBlocks * bpe) 64"

definition expectedNonSpanning :: "nat \<Rightarrow> nat \<Rightarrow> nat" where
  "expectedNonSpanning totalBlocks bpe = ceilDiv totalBlocks (64 div bpe)"

definition isSpanning :: "64 word list \<Rightarrow> nat \<Rightarrow> nat \<Rightarrow> bool" where
  "isSpanning blockStatesLong totalBlocks bpe =
     (length blockStatesLong = expectedSpanning totalBlocks bpe
      \<and> expectedSpanning totalBlocks bpe \<noteq> expectedNonSpanning totalBlocks bpe)"

text \<open>\<open>blockStatesLong[i]\<close> of a \<open>BigInt64Array\<close>: \<open>undefined\<close> outside the array.\<close>

definition wordAt :: "64 word list \<Rightarrow> nat \<Rightarrow> 64 word option" where
  "wordAt blockStatesLong i =
     (if i < length blockStatesLong then Some (blockStatesLong ! i) else None)"

text \<open>\<open>BigInt.asUintN(64, v)\<close>.\<close>

definition asUintN64 :: "int \<Rightarrow> int" where
  "asUintN64 v = v mod 2 ^ 64"

text \<open>
  The body of the spanning loop, up to \<open>paletteIdx\<close>. \<open>BigInt(undefined)\<close> throws for a
  missing start word; a missing next word reads as \<open>0n\<close>.
\<close>

definition spanningEntry :: "64 word list \<Rightarrow> nat \<Rightarrow> nat \<Rightarrow> error + int" where
  "spanningEntry blockStatesLong bpe i =
     (let startBit = i * bpe;
          startIndex = startBit div 64;
          endBit = startBit + bpe - 1;
          endIndex = endBit div 64;
          startBitOffset = startBit mod 64
      in case wordAt blockStatesLong startIndex of
           None \<Rightarrow> Inl NotABigInt
         | Some w1 \<Rightarrow>
             (let val1 = asUintN64 (sint w1)
              in if startIndex = endIndex
                 then Inr (drop_bit startBitOffset val1 AND maskOf bpe)
                 else (let endBitOffset = 64 - startBitOffset;
                           nextLong = (case wordAt blockStatesLong endIndex of
                                         None \<Rightarrow> 0 | Some w2 \<Rightarrow> sint w2);
                           val2 = asUintN64 nextLong;
                           part1 = drop_bit startBitOffset val1 AND maskOf bpe;
                           part2 = push_bit endBitOffset val2 AND maskOf bpe
                       in Inr (part1 OR part2))))"

text \<open>The body of the non-spanning loop: a missing word reads as \<open>0n\<close>.\<close>

definition nonSpanningEntry :: "64 word list \<Rightarrow> nat \<Rightarrow> nat \<Rightarrow> int" where
  "nonSpanningEntry blockStatesLong bpe i =
     (let longIndex = i div entriesPerLong bpe;
          bitOffset = (i mod entriesPerLong bpe) * bpe;
          longVal = (case wordAt blockStatesLong longIndex of None \<Rightarrow> 0 | Some w \<Rightarrow> sint w);
          unsignedLong = asUintN64 longVal
      in drop_bit bitOffset unsignedLong AND maskOf bpe)"

text \<open>A \<open>for\<close> loop over the indices whose body may throw: the first throw ends it.\<close>

fun forIndices :: "(nat \<Rightarrow> error + 'a) \<Rightarrow> nat list \<Rightarrow> error + 'a list" where
  "forIndices body [] = Inr []"
| "forIndices body (i # is) =
     (case body i of
        Inl e \<Rightarrow> Inl e
      | Inr v \<Rightarrow> (case forIndices body is of Inl e \<Rightarrow> Inl e | Inr vs \<Rightarrow> Inr (v # vs)))"

text \<open>The store \<open>blockIndices[i] = paletteIdx\<close> into an \<open>Int32Array\<close> keeps the low 32 bits.\<close>

definition toInt32 :: "int \<Rightarrow> 32 word" where
  "toInt32 v = word_of_int v"

definition decodeBlockStates :: "64 word list \<Rightarrow> nat \<Rightarrow> nat \<Rightarrow> error + 32 word list" where
  "decodeBlockStates blockStatesLong paletteLength totalBlocks =
     (let bpe = bitsPerEntry paletteLength
      in if isSpanning blockStatesLong totalBlocks bpe
         then forIndices (\<lambda>i. map_sum id toInt32 (spanningEntry blockStatesLong bpe i))
                [0 ..< totalBlocks]
         else Inr (map (\<lambda>i. toInt32 (nonSpanningEntry blockStatesLong bpe i))
                [0 ..< totalBlocks]))"

text \<open>The test of the \<open>forEach\<close> that fills \<open>airIndices\<close> in \<open>parseLitematic\<close>.\<close>

definition litematicAirState :: "string \<Rightarrow> bool" where
  "litematicAirState state =
     (let base = toLowerCase (splitHead state)
      in base = ''minecraft:air'' \<or> base = ''minecraft:cave_air'' \<or> base = ''minecraft:void_air'')"

definition litematicAirIndex :: "string list \<Rightarrow> int \<Rightarrow> bool" where
  "litematicAirIndex states idx =
     (0 \<le> idx \<and> idx < int (length states) \<and> litematicAirState (states ! nat idx))"

text \<open>\<open>paletteList[i]\<close> of a plain array: \<open>undefined\<close> outside it.\<close>

definition stateAt :: "string list \<Rightarrow> int \<Rightarrow> string option" where
  "stateAt states i = (if 0 \<le> i \<and> i < int (length states) then Some (states ! nat i) else None)"

definition litematicIndex :: "int \<Rightarrow> int \<Rightarrow> int \<Rightarrow> int \<Rightarrow> int \<Rightarrow> int" where
  "litematicIndex w l x y z = y * l * w + z * w + x"

definition litematicGetBlock ::
  "int \<Rightarrow> int \<Rightarrow> int \<Rightarrow> string list \<Rightarrow> 32 word list \<Rightarrow> int \<Rightarrow> int \<Rightarrow> int \<Rightarrow> string option" where
  "litematicGetBlock w h l states blockIndices x y z =
     (if x < 0 \<or> x \<ge> w \<or> y < 0 \<or> y \<ge> h \<or> z < 0 \<or> z \<ge> l then None
      else (case int32At blockIndices (litematicIndex w l x y z) of
              None \<Rightarrow> None
            | Some paletteIdx \<Rightarrow> orNull (stateAt states paletteIdx)))"

definition litematicName :: "litematicRoot \<Rightarrow> string \<Rightarrow> string" where
  "litematicName nbt regionName =
     the (orElse (orElse (case LitMetadata nbt of None \<Rightarrow> None | Some m \<Rightarrow> Name m)
                    (Some regionName)) (Some ''Unnamed''))"

text \<open>
  The body of \<open>parseLitematic\<close> from \<open>region.Size\<close> on; \<open>schematicName\<close> is the value of
  \<open>nbtData.Metadata?.Name || regionName || 'Unnamed'\<close>. The index array is allocated, for
  \<open>totalBlocks\<close> elements, before the decoding loops run.
\<close>

definition parseRegion ::
  "(string \<Rightarrow> string \<Rightarrow> bool) \<Rightarrow> nat \<Rightarrow> string \<Rightarrow> region \<Rightarrow> error + schematic" where
  "parseRegion le maxLength schematicName region =
     (case Size region of (sx, sy, sz) \<Rightarrow>
        (let w = \<bar>sx\<bar>; h = \<bar>sy\<bar>; l = \<bar>sz\<bar>
         in case BlockStatePalette region of
              None \<Rightarrow> Inl NoBlockStatePalette
            | Some palette \<Rightarrow>
                if palette = [] then Inl NoBlockStatePalette
                else (let states = map (stateString le) palette
                      in case BlockStates region of
                           None \<Rightarrow> Inl NoBlockStates
                         | Some blockStatesLong \<Rightarrow>
                             (case newInt32Array maxLength (w * h * l) of
                                Inl e \<Rightarrow> Inl e
                              | Inr totalBlocks \<Rightarrow>
                                  (case decodeBlockStates blockStatesLong (length palette)
                                          totalBlocks of
                                     Inl e \<Rightarrow> Inl e
                                   | Inr blockIndices \<Rightarrow>
                                       Inr \<lparr> width = w, height = h, lengthZ = l,
                                             name = schematicName,
                                             paletteList = map Some states,
                                             getBlock =
                                               litematicGetBlock w h l states blockIndices,
                                             totalNonAir =
                                               length (filter
                                                 (\<lambda>v. \<not> litematicAirIndex states (sint v))
                                                 blockIndices) \<rparr>)))))"

text \<open>
  The first region is \<open>regions[Object.keys(regions)[0]]\<close>; without a key the lookup gives
  \<open>undefined\<close> and the parser throws.
\<close>

definition parseLitematic ::
  "(string \<Rightarrow> string \<Rightarrow> bool) \<Rightarrow> nat \<Rightarrow> litematicRoot \<Rightarrow> error + schematic" where
  "parseLitematic le maxLength nbt =
     (case Regions nbt of
        None \<Rightarrow> Inl NoRegions
      | Some regions \<Rightarrow>
          (case regions of
             [] \<Rightarrow> Inl EmptyRegions
           | (regionName, _) # _ \<Rightarrow>
               (case map_of regions regionName of
                  None \<Rightarrow> Inl EmptyRegions
                | Some region \<Rightarrow>
                    parseRegion le maxLength (litematicName nbt regionName) region)))"

section \<open>Reference notions for the varint decoder\<close>

text \<open>
  The LEB128 encoding of the spec's round-trip property, written from the spec's words (the
  repository has a decoder only): 7 low bits per byte, least significant group first, the
  high bit set on every byte but the last of a number.
\<close>

fun leb128Encode :: "nat \<Rightarrow> 8 word list" where
  "leb128Encode n =
     (if n < 128 then [of_nat n]
      else (of_nat (n mod 128) OR 0x80) # leb128Encode (n div 128))"

declare leb128Encode.simps [simp del]

definition leb128EncodeList :: "nat list \<Rightarrow> 8 word list" where
  "leb128EncodeList vs = concat (map leb128Encode vs)"


section \<open>Reference notion for the bit-packed decoder\<close>

text \<open>
  Bit \<open>k\<close> of the word array read as one stream of bits, least significant bit of word 0
  first; a word that is not there reads as zero.
\<close>

definition streamBit :: "64 word list \<Rightarrow> nat \<Rightarrow> bool" where
  "streamBit blockStatesLong k =
     (case wordAt blockStatesLong (k div 64) of None \<Rightarrow> False | Some w \<Rightarrow> bit w (k mod 64))"

text \<open>Word \<open>k\<close> of the array as an unsigned 64-bit number, zero when it is not there.\<close>

definition unsignedWord :: "64 word list \<Rightarrow> nat \<Rightarrow> int" where
  "unsignedWord blockStatesLong k =
     (case wordAt blockStatesLong k of None \<Rightarrow> 0 | Some w \<Rightarrow> uint w)"

section \<open>Reference notion for the non-air count\<close>

text \<open>
  The cells of a grid in the order \<open>computeMaterials\<close> scans them, and the number of cells
  whose descriptor \<open>isAir\<close> does not classify as air.
\<close>

definition gridCells :: "schematic \<Rightarrow> (int \<times> int \<times> int) list" where
  "gridCells g =
     concat (map (\<lambda>y. concat (map (\<lambda>z. map (\<lambda>x. (x, y, z)) [0 .. width g - 1])
                                  [0 .. lengthZ g - 1]))
               [0 .. height g - 1])"

definition countNonAir :: "schematic \<Rightarrow> nat" where
  "countNonAir g = length (filter (\<lambda>(x, y, z). \<not> isAir (getBlock g x y z)) (gridCells g))"

section \<open>Flood fill (the viewer's \<open>floodFill\<close>)\<close>

text \<open>
  \<open>floodFill\<close> reads the globals \<open>schematic\<close> and \<open>currentLayer\<close>; here they are arguments.
  The set \<open>cells\<close> holds the keys \<open>"x,z"\<close>, one for each pair of integers: it is the list of
  the pairs in insertion order, without repetition. The fields \<open>boxW\<close> and \<open>boxH\<close> are the
  \<open>w\<close> and \<open>h\<close> of the returned object.
\<close>

record box =
  cells :: "(int \<times> int) list"
  minX :: int
  minZ :: int
  maxX :: int
  maxZ :: int

record fillState = box +
  queue :: "(int \<times> int) list"

record fillResult = box +
  boxW :: int
  boxH :: int
  count :: nat

text \<open>The body of the loop over the four neighbours, for one neighbour.\<close>

definition visit :: "schematic \<Rightarrow> int \<Rightarrow> string \<Rightarrow> fillState \<Rightarrow> int \<times> int \<Rightarrow> fillState" where
  "visit s layer baseId st n =
     (case n of (nx, nz) \<Rightarrow>
        if (nx, nz) \<in> set (cells st) then st
        else if nx < 0 \<or> nx \<ge> width s \<or> nz < 0 \<or> nz \<ge> lengthZ s then st
        else if getBaseBlockId (getBlock s nx layer nz) = Some baseId
             then st\<lparr> cells := cells st @ [(nx, nz)],
                      queue := queue st @ [(nx, nz)],
                      minX := (if nx < minX st then nx else minX st),
                      maxX := (if nx > maxX st then nx else maxX st),
                      minZ := (if nz < minZ st then nz else minZ st),
                      maxZ := (if nz > maxZ st then nz else maxZ st) \<rparr>
             else st)"

definition neighbors :: "int \<times> int \<Rightarrow> (int \<times> int) list" where
  "neighbors c = (case c of (cx, cz) \<Rightarrow> [(cx - 1, cz), (cx + 1, cz), (cx, cz - 1), (cx, cz + 1)])"

text \<open>
  The cells of the layer that a fill for \<open>baseId\<close> admits: in bounds, with that base
  identifier.
\<close>

definition sameBlock :: "schematic \<Rightarrow> int \<Rightarrow> string \<Rightarrow> (int \<times> int) set" where
  "sameBlock s layer baseId =
     {(x, z). 0 \<le> x \<and> x < width s \<and> 0 \<le> z \<and> z < lengthZ s
              \<and> getBaseBlockId (getBlock s x layer z) = Some baseId}"

lemma finite_sameBlock: "finite (sameBlock s layer baseId)"
proof (rule finite_subset)
  show "sameBlock s layer baseId \<subseteq> {0 ..< width s} \<times> {0 ..< lengthZ s}"
    by (auto simp add: sameBlock_def)
  show "finite ({0 ..< width s} \<times> {0 ..< lengthZ s})"
    by simp
qed

lemma visit_cases:
  "visit s layer baseId st n =
     (if n \<in> sameBlock s layer baseId - set (cells st)
      then st\<lparr> cells := cells st @ [n],
               queue := queue st @ [n],
               minX := min (fst n) (minX st),
               maxX := max (fst n) (maxX st),
               minZ := min (snd n) (minZ st),
               maxZ := max (snd n) (maxZ st) \<rparr>
      else st)"
  by (cases n) (auto simp add: visit_def sameBlock_def min_def max_def)

text \<open>
  What is left to do: twice the admitted cells not yet in \<open>cells\<close>, plus the queue. A visit
  does not raise it, taking a cell from the queue lowers it.
\<close>

definition fillMeasure :: "schematic \<Rightarrow> int \<Rightarrow> string \<Rightarrow> fillState \<Rightarrow> nat" where
  "fillMeasure s layer baseId st =
     2 * card (sameBlock s layer baseId - set (cells st)) + length (queue st)"

lemma fillMeasure_visit:
  "fillMeasure s layer baseId (visit s layer baseId st n) \<le> fillMeasure s layer baseId st"
proof (cases "n \<in> sameBlock s layer baseId - set (cells st)")
  case True
  have fin: "finite (sameBlock s layer baseId - set (cells st))"
    using finite_sameBlock by (rule finite_Diff)
  have "sameBlock s layer baseId - set (cells st @ [n])
          = (sameBlock s layer baseId - set (cells st)) - {n}"
    by auto
  then have "card (sameBlock s layer baseId - set (cells st @ [n]))
          = card (sameBlock s layer baseId - set (cells st)) - 1"
    using True fin by (simp only: card_Diff_singleton)
  moreover have "0 < card (sameBlock s layer baseId - set (cells st))"
    using True fin by (auto simp add: card_gt_0_iff)
  ultimately show ?thesis using True
    by (simp add: fillMeasure_def visit_cases)
next
  case False
  then have "visit s layer baseId st n = st" by (simp only: visit_cases if_False)
  then show ?thesis by simp
qed

lemma fillMeasure_foldl:
  "fillMeasure s layer baseId (foldl (visit s layer baseId) st ns) \<le> fillMeasure s layer baseId st"
proof (induction ns arbitrary: st)
  case Nil
  show ?case by simp
next
  case (Cons n ns)
  have "fillMeasure s layer baseId (foldl (visit s layer baseId) (visit s layer baseId st n) ns)
          \<le> fillMeasure s layer baseId (visit s layer baseId st n)"
    by (rule Cons.IH)
  also have "\<dots> \<le> fillMeasure s layer baseId st"
    by (rule fillMeasure_visit)
  finally show ?case by simp
qed

text \<open>The \<open>while (queue.length > 0)\<close> loop.\<close>

function bfs :: "schematic \<Rightarrow> int \<Rightarrow> string \<Rightarrow> fillState \<Rightarrow> fillState" where
  "bfs s layer baseId st =
     (case queue st of
        [] \<Rightarrow> st
      | c # rest \<Rightarrow>
          bfs s layer baseId
            (foldl (visit s layer baseId) (st\<lparr> queue := rest \<rparr>) (neighbors c)))"
  by pat_completeness auto
termination
proof (relation "measure (\<lambda>(s, layer, baseId, st). fillMeasure s layer baseId st)")
  show "wf (measure (\<lambda>(s, layer, baseId, st). fillMeasure s layer baseId st))"
    by simp
next
  fix s :: schematic and layer :: int and baseId :: string and st :: fillState
    and c :: "int \<times> int" and rest :: "(int \<times> int) list"
  assume q: "queue st = c # rest"
  have "fillMeasure s layer baseId
          (foldl (visit s layer baseId) (st\<lparr> queue := rest \<rparr>) (neighbors c))
        \<le> fillMeasure s layer baseId (st\<lparr> queue := rest \<rparr>)"
    by (rule fillMeasure_foldl)
  also have "\<dots> < fillMeasure s layer baseId st"
    using q by (simp add: fillMeasure_def)
  finally show "((s, layer, baseId,
                  foldl (visit s layer baseId) (st\<lparr> queue := rest \<rparr>) (neighbors c)),
                 (s, layer, baseId, st))
                \<in> measure (\<lambda>(s, layer, baseId, st). fillMeasure s layer baseId st)"
    by simp
qed

declare bfs.simps [simp del]

definition floodFill :: "schematic \<Rightarrow> int \<Rightarrow> int \<Rightarrow> int \<Rightarrow> fillResult option" where
  "floodFill schematic currentLayer startX startZ =
     (let baseId = getBaseBlockId (getBlock schematic startX currentLayer startZ)
      in if falsy baseId then None
         else if isAir (Some (''minecraft:'' @ the baseId)) then None
         else (let st = bfs schematic currentLayer (the baseId)
                          \<lparr> cells = [(startX, startZ)],
                            minX = startX, minZ = startZ, maxX = startX, maxZ = startZ,
                            queue = [(startX, startZ)] \<rparr>
               in Some \<lparr> cells = cells st,
                         minX = minX st, minZ = minZ st, maxX = maxX st, maxZ = maxZ st,
                         boxW = maxX st - minX st + 1,
                         boxH = maxZ st - minZ st + 1,
                         count = length (cells st) \<rparr>))"

text \<open>
  The region the fill is to find: the cells that a path of steps to a 4-directional
  neighbour, through admitted cells only, joins to the start.
\<close>

inductive_set component :: "schematic \<Rightarrow> int \<Rightarrow> string \<Rightarrow> int \<times> int \<Rightarrow> (int \<times> int) set"
  for s :: schematic and layer :: int and baseId :: string and start :: "int \<times> int" where
  start: "start \<in> sameBlock s layer baseId \<Longrightarrow> start \<in> component s layer baseId start"
| step: "c \<in> component s layer baseId start \<Longrightarrow> n \<in> set (neighbors c) \<Longrightarrow>
         n \<in> sameBlock s layer baseId \<Longrightarrow> n \<in> component s layer baseId start"

text \<open>A grid answers \<open>null\<close> outside its bounds, as the \<open>getBlock\<close> of both adapters does.\<close>

definition bounded :: "schematic \<Rightarrow> bool" where
  "bounded s \<longleftrightarrow>
     (\<forall>x y z. getBlock s x y z \<noteq> None \<longrightarrow>
        0 \<le> x \<and> x < width s \<and> 0 \<le> y \<and> y < height s \<and> 0 \<le> z \<and> z < lengthZ s)"

text \<open>
  The invariant of the loop, for a fill from \<open>start\<close>: the cells found so far are distinct
  cells of the region, the queue holds some of them, every admitted neighbour of a cell
  that has left the queue has been found, and the box is the bounding box of the cells.
\<close>

definition fillCore :: "schematic \<Rightarrow> int \<Rightarrow> string \<Rightarrow> int \<times> int \<Rightarrow> fillState \<Rightarrow> bool" where
  "fillCore s layer baseId start st \<longleftrightarrow>
     start \<in> set (cells st) \<and> distinct (cells st) \<and> set (queue st) \<subseteq> set (cells st)
     \<and> set (cells st) \<subseteq> component s layer baseId start
     \<and> minX st = Min (fst ` set (cells st)) \<and> maxX st = Max (fst ` set (cells st))
     \<and> minZ st = Min (snd ` set (cells st)) \<and> maxZ st = Max (snd ` set (cells st))"

definition fillClosed :: "schematic \<Rightarrow> int \<Rightarrow> string \<Rightarrow> fillState \<Rightarrow> bool" where
  "fillClosed s layer baseId st \<longleftrightarrow>
     (\<forall>c \<in> set (cells st) - set (queue st). \<forall>n \<in> set (neighbors c).
        n \<in> sameBlock s layer baseId \<longrightarrow> n \<in> set (cells st))"

section \<open>Two small grids\<close>

text \<open>
  What \<open>parseSchem\<close> returns for a single cell \<open>cave_air\<close> (no namespace), and for a row of
  three cells: two oak stairs that differ in their properties, then stone.
\<close>

definition caveAirGrid :: schematic where
  "caveAirGrid =
     \<lparr> width = 1, height = 1, lengthZ = 1, name = ''Unnamed'',
       paletteList = [Some ''cave_air''],
       getBlock = schemGetBlock 1 1 1 [(''cave_air'', 0)] [0],
       totalNonAir = 1 \<rparr>"

definition stairsPalette :: "(string \<times> int) list" where
  "stairsPalette =
     [(''minecraft:oak_stairs[facing=north]'', 0),
      (''minecraft:oak_stairs[facing=south]'', 1),
      (''minecraft:stone'', 2)]"

definition stairsGrid :: schematic where
  "stairsGrid =
     \<lparr> width = 3, height = 1, lengthZ = 1, name = ''Unnamed'',
       paletteList = [Some ''minecraft:oak_stairs[facing=north]'',
                      Some ''minecraft:oak_stairs[facing=south]'',
                      Some ''minecraft:stone''],
       getBlock = schemGetBlock 3 1 1 stairsPalette [0, 1, 2],
       totalNonAir = 3 \<rparr>"

section \<open>The varint decoder\<close>

subsection \<open>Bytes of the encoding\<close>

lemma bit_0x80: "bit (0x80 :: 8 word) k \<longleftrightarrow> k = 7"
proof -
  have "(0x80 :: 8 word) = 2 ^ 7" by simp
  then show ?thesis by (simp only: bit_exp_iff) auto
qed

lemma bit_0x7F: "bit (0x7F :: 8 word) k \<longleftrightarrow> k < 7"
proof -
  have "(0x7F :: 8 word) = Bit_Operations.mask 7" by (simp add: mask_eq_exp_minus_1)
  then show ?thesis by (simp only: bit_mask_iff) auto
qed

lemma bit_low7: "bit (of_nat (take_bit 7 n) :: 8 word) k \<longleftrightarrow> k < 7 \<and> bit n k"
  by (auto simp add: bit_simps)

lemma low7_last: "(of_nat (take_bit 7 n) :: 8 word) AND 0x7F = of_nat (take_bit 7 n)"
  by (rule bit_eqI) (auto simp only: bit_and_iff bit_0x7F bit_low7)

lemma high_last: "(of_nat (take_bit 7 n) :: 8 word) AND 0x80 = 0"
  by (rule bit_eqI) (auto simp only: bit_and_iff bit_0x80 bit_low7 bit_0_eq bot_apply bot_bool_def)

lemma low7_cont: "((of_nat (take_bit 7 n) :: 8 word) OR 0x80) AND 0x7F = of_nat (take_bit 7 n)"
  by (rule bit_eqI) (auto simp only: bit_and_iff bit_or_iff bit_0x7F bit_0x80 bit_low7)

lemma high_cont: "((of_nat (take_bit 7 n) :: 8 word) OR 0x80) AND 0x80 \<noteq> 0"
proof -
  have "bit (((of_nat (take_bit 7 n) :: 8 word) OR 0x80) AND 0x80) 7"
    by (simp add: bit_and_iff bit_or_iff bit_0x80)
  then show ?thesis by auto
qed

lemma ucast_low7: "(ucast (of_nat (take_bit 7 n) :: 8 word) :: 32 word) = of_nat (take_bit 7 n)"
  by (rule bit_eqI) (auto simp add: bit_simps)

lemma join7: "(of_nat (take_bit 7 n) :: 32 word) OR push_bit 7 (of_nat (drop_bit 7 n)) = of_nat n"
  by (rule bit_eqI) (auto simp add: bit_simps)

lemma leb128Encode_unfold:
  "leb128Encode n =
     (if n < 128 then [of_nat (take_bit 7 n)]
      else (of_nat (take_bit 7 n) OR 0x80) # leb128Encode (drop_bit 7 n))"
  by (subst leb128Encode.simps) (simp add: take_bit_eq_mod drop_bit_eq_div)

lemma readVarint_leb128Encode:
  "shift < 32 \<Longrightarrow> n * 2 ^ shift < 2 ^ 32 \<Longrightarrow>
   readVarint (leb128Encode n @ rest) acc shift = Some (acc OR push_bit shift (of_nat n), rest)"
proof (induction n arbitrary: acc shift rule: leb128Encode.induct)
  case (1 n)
  show ?case
  proof (cases "n < 128")
    case True
    then have "take_bit 7 n = n" by (simp add: take_bit_eq_mod)
    then have "(of_nat (take_bit 7 n) :: 32 word) = of_nat n" by simp
    then show ?thesis using "1.prems"(1) True
      by (subst leb128Encode_unfold) (simp add: low7_last high_last ucast_low7)
  next
    case False
    have "128 * 2 ^ shift \<le> n * (2::nat) ^ shift" using False by simp
    with "1.prems"(2) have "128 * (2::nat) ^ shift < 2 ^ 32" by linarith
    then have "(2::nat) ^ (shift + 7) < 2 ^ 32" by (simp add: power_add)
    then have s: "shift + 7 < 32" by (simp only: power_strict_increasing_iff rel_simps)
    have "(n div 128) * 2 ^ (shift + 7) = (n div 128 * 128) * 2 ^ shift" by (simp add: power_add)
    also have "\<dots> \<le> n * 2 ^ shift" by (rule mult_le_mono1) simp
    finally have b: "(n div 128) * 2 ^ (shift + 7) < 2 ^ 32" using "1.prems"(2) by simp
    have ih: "readVarint (leb128Encode (drop_bit 7 n) @ rest) acc' (shift + 7)
                = Some (acc' OR push_bit (shift + 7) (of_nat (drop_bit 7 n)), rest)" for acc'
      using "1.IH" [OF False s b] by (simp add: drop_bit_eq_div)
    have "push_bit shift (of_nat (take_bit 7 n) :: 32 word)
            OR push_bit (shift + 7) (of_nat (drop_bit 7 n))
          = push_bit shift (of_nat (take_bit 7 n) OR push_bit 7 (of_nat (drop_bit 7 n)))"
      by (simp add: push_bit_or push_bit_push_bit)
    then have j: "push_bit shift (of_nat (take_bit 7 n) :: 32 word)
            OR push_bit (shift + 7) (of_nat (drop_bit 7 n)) = push_bit shift (of_nat n)"
      by (simp only: join7)
    show ?thesis using "1.prems"(1) False
      by (subst leb128Encode_unfold)
        (simp add: low7_cont high_cont ucast_low7 ih Let_def or.assoc j)
  qed
qed





lemma decodeVarints_encode:
  "\<forall>v \<in> set vs. v < 2 ^ 32 \<Longrightarrow>
   decodeVarints (leb128EncodeList vs @ rest) i (length vs) = Inr (map of_nat vs)"
proof (induction vs arbitrary: i)
  case Nil
  then show ?case by simp
next
  case (Cons v vs)
  then have "v * 2 ^ 0 < 2 ^ 32" by simp
  then have "readVarint (leb128Encode v @ leb128EncodeList vs @ rest) 0 0
               = Some (0 OR push_bit 0 (of_nat v), leb128EncodeList vs @ rest)"
    by (intro readVarint_leb128Encode) simp_all
  then show ?case using Cons by (simp add: leb128EncodeList_def)
qed

lemma sint_of_nat31: "v < 2 ^ 31 \<Longrightarrow> sint (of_nat v :: 32 word) = int v"
  by (simp add: signed_of_nat signed_take_bit_int_eq_self)

subsection \<open>Round trip\<close>

text \<open>
  C6: for every list of non-negative 32-bit integers (values below \<open>2^31\<close>, the
  non-negative range of the decoder's \<open>Int32Array\<close>), decoding the LEB128 encoding of the
  list with expected count the length of the list gives back the list. The list is no
  longer than the longest \<open>Int32Array\<close> of the engine, as any list is whose encoding the
  engine holds.
\<close>

theorem varint_roundtrip:
  assumes "\<forall>v \<in> set vs. v < 2 ^ 31" and "length vs \<le> maxLength"
  shows "map_sum id (map sint)
           (decodeVarintArray maxLength (leb128EncodeList vs) (int (length vs)))
           = Inr (map int vs)"
proof -
  have "\<forall>v \<in> set vs. v < 2 ^ 32"
  proof
    fix v assume "v \<in> set vs"
    with assms(1) have "v < 2 ^ 31" by blast
    then show "v < 2 ^ 32" by simp
  qed
  then have "decodeVarints (leb128EncodeList vs @ []) 0 (length vs) = Inr (map of_nat vs)"
    by (rule decodeVarints_encode)
  moreover have "map (\<lambda>v. sint (of_nat v :: 32 word)) vs = map int vs"
    using assms(1) by (simp add: sint_of_nat31)
  ultimately show ?thesis
    using assms(2) by (simp add: decodeVarintArray_def newInt32Array_def comp_def)
qed

theorem varint_roundtrip_witness:
  "map_sum id (map sint)
     (decodeVarintArray 4294967295 (leb128EncodeList [0, 300, 2147483647])
        (int (length [0, 300, 2147483647 :: nat])))
   = Inr (map int [0, 300, 2147483647])"
proof -
  have h: "\<forall>v \<in> set [0, 300, 2147483647 :: nat]. v < 2 ^ 31" by simp
  have l: "length [0, 300, 2147483647 :: nat] \<le> 4294967295" by simp
  from varint_roundtrip [OF h l] show ?thesis .
qed

subsection \<open>Truncated buffers\<close>







section \<open>The bit-packed decoder\<close>

subsection \<open>Bit width and expected word counts\<close>

lemma ceilLog2_eq: "ceilLog2 n = ceillog2 n"
proof (induction n rule: ceilLog2.induct)
  case (1 n)
  show ?case
  proof (cases "n \<le> 1")
    case True
    then show ?thesis by (simp add: ceilLog2.simps [of n])
  next
    case False
    with 1 show ?thesis
      by (subst ceilLog2.simps, subst ceillog2_rec) simp
  qed
qed

lemma ceilLog2_le: "n \<le> 2 ^ k \<Longrightarrow> ceilLog2 n \<le> k"
proof (cases "n = 0")
  case True
  then show ?thesis by (simp add: ceilLog2.simps [of 0])
next
  case False
  assume "n \<le> 2 ^ k"
  with False show ?thesis by (simp add: ceilLog2_eq ceillog2_le_iff)
qed

lemma bitsPerEntry_bounds: "P < 2 ^ 32 \<Longrightarrow> 2 \<le> bitsPerEntry P \<and> bitsPerEntry P \<le> 32"
  using ceilLog2_le [of P 32] by (simp add: bitsPerEntry_def)

lemma ceilDiv_bounds:
  assumes "0 < b"
  shows "a \<le> ceilDiv a b * b" and "ceilDiv a b * b < a + b"
proof -
  define q where "q = (a + b - 1) div b"
  define r where "r = (a + b - 1) mod b"
  have "q * b + r = a + b - 1" by (simp add: q_def r_def)
  with assms have e: "q * b + r + 1 = a + b" by simp
  have "r < b" using assms by (simp add: r_def)
  moreover have "ceilDiv a b = q" by (simp add: ceilDiv_def q_def)
  ultimately have "a \<le> ceilDiv a b * b \<and> ceilDiv a b * b < a + b"
    using e by simp
  then show "a \<le> ceilDiv a b * b" and "ceilDiv a b * b < a + b"
    by blast+
qed

lemma ceilDiv_ceiling: 
  assumes "0 < b" shows "int (ceilDiv a b) = \<lceil>real a / real b\<rceil>"
proof -
  from ceilDiv_bounds [OF assms, of a]
  have 1: "real a \<le> real (ceilDiv a b) * real b" 
    and 2: "real (ceilDiv a b) * real b < real a + real b"
    by (metis of_nat_le_iff of_nat_mult, metis of_nat_less_iff of_nat_mult of_nat_add)
  have "\<lceil>real a / real b\<rceil> = int (ceilDiv a b)"
  proof (rule ceiling_unique)
    show "real_of_int (int (ceilDiv a b)) - 1 < real a / real b"
      using 2 assms by (simp add: field_simps)
    show "real a / real b \<le> real_of_int (int (ceilDiv a b))"
      using 1 assms by (simp add: field_simps)
  qed
  then show ?thesis by simp
qed

lemma floor64: "0 < b \<Longrightarrow> \<lfloor>(64::real) / real b\<rfloor> = int (64 div b)"
  using floor_divide_of_nat_eq [of 64 b, where ?'a = real] by simp

text \<open>
  C1: for a palette of \<open>P\<close> entries (an array length: \<open>0 < P < 2^32\<close>) and \<open>N\<close> expected
  elements the decoder works with \<open>bitsPerEntry = max(2, ceil(log2 P))\<close>,
  \<open>expectedSpanning = ceil(N*bitsPerEntry/64)\<close> and
  \<open>expectedNonSpanning = ceil(N/floor(64/bitsPerEntry))\<close>; it runs the spanning loop if
  and only if the two expected counts differ and the word array has the spanning length,
  and the non-spanning loop in every other case.
\<close>

theorem layout_choice:
  assumes "0 < P" and "P < 2 ^ 32"
  shows "bitsPerEntry P = max 2 (nat \<lceil>log 2 (real P)\<rceil>)
    \<and> int (expectedSpanning N (bitsPerEntry P)) = \<lceil>real (N * bitsPerEntry P) / 64\<rceil>
    \<and> int (expectedNonSpanning N (bitsPerEntry P))
        = \<lceil>real N / real_of_int \<lfloor>64 / real (bitsPerEntry P)\<rfloor>\<rceil>
    \<and> decodeBlockStates ws P N =
        (if expectedSpanning N (bitsPerEntry P) \<noteq> expectedNonSpanning N (bitsPerEntry P)
            \<and> length ws = expectedSpanning N (bitsPerEntry P)
         then forIndices (\<lambda>i. map_sum id toInt32 (spanningEntry ws (bitsPerEntry P) i)) [0 ..< N]
         else Inr (map (\<lambda>i. toInt32 (nonSpanningEntry ws (bitsPerEntry P) i)) [0 ..< N]))"
proof -
  from assms(2) have b: "2 \<le> bitsPerEntry P" "bitsPerEntry P \<le> 32"
    using bitsPerEntry_bounds by blast+
  then have pos: "0 < 64 div bitsPerEntry P"
    by (simp add: div_greater_zero_iff)
  have 1: "bitsPerEntry P = max 2 (nat \<lceil>log 2 (real P)\<rceil>)"
    using assms(1) by (simp add: bitsPerEntry_def ceilLog2_eq ceillog2_def)
  have 2: "int (expectedSpanning N (bitsPerEntry P)) = \<lceil>real (N * bitsPerEntry P) / 64\<rceil>"
    using ceilDiv_ceiling [of 64 "N * bitsPerEntry P"] by (simp add: expectedSpanning_def)
  have 3: "int (expectedNonSpanning N (bitsPerEntry P))
        = \<lceil>real N / real_of_int \<lfloor>64 / real (bitsPerEntry P)\<rfloor>\<rceil>"
    using ceilDiv_ceiling [OF pos, of N] b(1) by (simp add: expectedNonSpanning_def floor64)
  have 4: "decodeBlockStates ws P N =
        (if expectedSpanning N (bitsPerEntry P) \<noteq> expectedNonSpanning N (bitsPerEntry P)
            \<and> length ws = expectedSpanning N (bitsPerEntry P)
         then forIndices (\<lambda>i. map_sum id toInt32 (spanningEntry ws (bitsPerEntry P) i)) [0 ..< N]
         else Inr (map (\<lambda>i. toInt32 (nonSpanningEntry ws (bitsPerEntry P) i)) [0 ..< N]))"
    by (simp add: decodeBlockStates_def isSpanning_def Let_def)
  from 1 2 3 4 show ?thesis by blast
qed

theorem layout_choice_witness:
  "(0::nat) < 5 \<and> (5::nat) < 2 ^ 32
   \<and> bitsPerEntry 5 = 3
   \<and> expectedSpanning 64 (bitsPerEntry 5) = 3
   \<and> expectedNonSpanning 64 (bitsPerEntry 5) = 4
   \<and> decodeBlockStates [1, 2, 3] 5 64 =
        forIndices (\<lambda>i. map_sum id toInt32 (spanningEntry [1, 2, 3] (bitsPerEntry 5) i)) [0 ..< 64]
   \<and> decodeBlockStates [1, 2, 3, 4] 5 64 =
        Inr (map (\<lambda>i. toInt32 (nonSpanningEntry [1, 2, 3, 4] (bitsPerEntry 5) i)) [0 ..< 64])"
proof -
  have h: "(0::nat) < 5" "(5::nat) < 2 ^ 32" by simp_all
  have b: "bitsPerEntry 5 = 3" by code_simp
  have s: "expectedSpanning 64 3 = 3" by code_simp
  have n: "expectedNonSpanning 64 3 = 4" by code_simp
  from layout_choice [OF h, of 64 "[1, 2, 3]"] layout_choice [OF h, of 64 "[1, 2, 3, 4]"]
  show ?thesis using h by (simp add: b s n)
qed

subsection \<open>The spanning loop\<close>

lemma asUintN64_sint: "asUintN64 (sint (w :: 64 word)) = uint w"
  by (simp add: asUintN64_def uint_sint take_bit_eq_mod)

lemma asUintN64_0: "asUintN64 0 = 0"
  by (simp add: asUintN64_def)

lemma and_mask: "x AND maskOf n = take_bit n x"
  by (simp add: maskOf_def take_bit_eq_mask mask_eq_exp_minus_1)

lemma nextLong_unsigned:
  "asUintN64 (case wordAt ws k of None \<Rightarrow> 0 | Some w \<Rightarrow> sint w) = unsignedWord ws k"
  by (simp add: unsignedWord_def asUintN64_sint asUintN64_0 split: option.split)

lemma bit_unsignedWord: "bit (unsignedWord ws k) n \<longleftrightarrow> streamBit ws (64 * k + n) \<and> n < 64"
  by (auto simp add: unsignedWord_def streamBit_def bit_uint_iff split: option.split dest: bit_imp_le_length)

lemma spanningEntry_value:
  assumes "(i * bpe) div 64 < length ws"
  shows "spanningEntry ws bpe i =
     Inr (if (i * bpe) div 64 = (i * bpe + bpe - 1) div 64
          then drop_bit ((i * bpe) mod 64) (unsignedWord ws ((i * bpe) div 64)) AND maskOf bpe
          else (drop_bit ((i * bpe) mod 64) (unsignedWord ws ((i * bpe) div 64)) AND maskOf bpe)
               OR (push_bit (64 - (i * bpe) mod 64) (unsignedWord ws ((i * bpe + bpe - 1) div 64))
                   AND maskOf bpe))"
proof -
  from assms have w: "wordAt ws ((i * bpe) div 64) = Some (ws ! ((i * bpe) div 64))"
    by (simp add: wordAt_def)
  then have u: "uint (ws ! ((i * bpe) div 64)) = unsignedWord ws ((i * bpe) div 64)"
    by (simp add: unsignedWord_def)
  show ?thesis 
    by (simp add: spanningEntry_def Let_def w asUintN64_sint nextLong_unsigned u)
qed

lemma split64:
  fixes sb k :: nat
  shows "(sb + k) div 64 = sb div 64 + (sb mod 64 + k) div 64"
    and "(sb + k) mod 64 = (sb mod 64 + k) mod 64"
proof -
  have "sb + k = (sb div 64) * 64 + sb mod 64 + k" by (simp only: div_mult_mod_eq)
  then have e: "sb + k = (sb mod 64 + k) + (sb div 64) * 64" by (simp only: ac_simps)
  have "(sb + k) div 64 = ((sb mod 64 + k) + (sb div 64) * 64) div 64" 
    using e by (rule arg_cong)
  then show "(sb + k) div 64 = sb div 64 + (sb mod 64 + k) div 64"
    by (simp only: div_mult_self1 [of 64])
  have "(sb + k) mod 64 = ((sb mod 64 + k) + (sb div 64) * 64) mod 64" 
    using e by (rule arg_cong)
  then show "(sb + k) mod 64 = (sb mod 64 + k) mod 64"
    by (simp only: mod_mult_self1)
qed


lemma same_word_iff:
  fixes sb bpe :: nat
  assumes "0 < bpe"
  shows "sb div 64 = (sb + bpe - 1) div 64 \<longleftrightarrow> sb mod 64 + bpe \<le> 64"
proof -
  define off where "off = sb mod 64"
  define x where "x = off + (bpe - 1)"
  have "(sb + (bpe - 1)) div 64 = sb div 64 + x div 64"
    unfolding x_def off_def by (rule split64(1))
  moreover from assms have "sb + bpe - 1 = sb + (bpe - 1)" by simp
  ultimately have "(sb + bpe - 1) div 64 = sb div 64 + x div 64"
    by (simp only:)
  moreover have "x div 64 = 0 \<longleftrightarrow> x < 64"
    by (simp add: div_eq_0_iff)
  moreover have "x < 64 \<longleftrightarrow> off + bpe \<le> 64"
    using assms unfolding x_def by linarith
  ultimately show ?thesis unfolding off_def by simp
qed

lemma end_word:
  fixes sb bpe :: nat
  assumes "0 < bpe" "bpe \<le> 64" "\<not> sb mod 64 + bpe \<le> 64"
  shows "(sb + bpe - 1) div 64 = Suc (sb div 64)"
proof -
  define off where "off = sb mod 64"
  define x where "x = off + (bpe - 1)"
  have "(sb + (bpe - 1)) div 64 = sb div 64 + x div 64"
    unfolding x_def off_def by (rule split64(1))
  moreover from assms have "sb + bpe - 1 = sb + (bpe - 1)" by simp
  ultimately have "(sb + bpe - 1) div 64 = sb div 64 + x div 64"
    by (simp only:)
  moreover have "off < 64" by (simp add: off_def)
  then have "64 * 1 \<le> x" and "x < 64 * Suc 1"
    using assms unfolding x_def off_def [symmetric] by (cases bpe; simp)+
  then have "x div 64 = 1"
    by (rule div_nat_eqI)
  ultimately show ?thesis by simp
qed


lemma entry_bit_same:
  fixes sb bpe j :: nat
  assumes "sb mod 64 + bpe \<le> 64" and "j < bpe"
  shows "bit (drop_bit (sb mod 64) (unsignedWord ws (sb div 64)) AND maskOf bpe) j
           \<longleftrightarrow> streamBit ws (sb + j)"
proof -
  have "64 * (sb div 64) + (sb mod 64 + j) = sb + j" by simp
  moreover from assms have "sb mod 64 + j < 64" by simp
  ultimately show ?thesis using assms(2)
    by (simp add: and_mask bit_take_bit_iff bit_drop_bit_eq bit_unsignedWord)
qed

lemma entry_bit_next:
  fixes sb bpe j :: nat
  assumes "\<not> sb mod 64 + bpe \<le> 64" and "j < bpe" and "bpe \<le> 64"
  shows "bit ((drop_bit (sb mod 64) (unsignedWord ws (sb div 64)) AND maskOf bpe)
              OR (push_bit (64 - sb mod 64) (unsignedWord ws (Suc (sb div 64))) AND maskOf bpe)) j
           \<longleftrightarrow> streamBit ws (sb + j)"
proof (cases "sb mod 64 + j < 64")
  case True
  have "64 * (sb div 64) + (sb mod 64 + j) = sb + j" by simp
  moreover from True have "\<not> 64 - sb mod 64 \<le> j" by simp
  ultimately show ?thesis using assms(2) True
    by (simp add: and_mask bit_or_iff bit_take_bit_iff bit_drop_bit_eq bit_push_bit_iff
        bit_unsignedWord)
next
  case False
  have "sb mod 64 < 64" by simp
  with False have le: "64 - sb mod 64 \<le> j" by linarith
  have "64 * Suc (sb div 64) + (j - (64 - sb mod 64)) = 64 * (sb div 64) + sb mod 64 + j"
    using le by simp
  then have e: "64 * Suc (sb div 64) + (j - (64 - sb mod 64)) = sb + j" by simp
  have lt: "j - (64 - sb mod 64) < 64" using assms(2,3) by simp
  show ?thesis using assms(2) False le lt
    by (simp add: and_mask bit_or_iff bit_take_bit_iff bit_drop_bit_eq bit_push_bit_iff
        bit_unsignedWord e)
qed

lemma unsignedWord_nonneg: "0 \<le> unsignedWord ws k"
  by (simp add: unsignedWord_def split: option.split)

lemma entry_range:
  "0 \<le> (drop_bit a x AND maskOf bpe) OR (push_bit b y AND maskOf bpe)"
  "(drop_bit a x AND maskOf bpe) OR (push_bit b y AND maskOf bpe) < 2 ^ bpe"
  "0 \<le> drop_bit a x AND maskOf bpe"
  "drop_bit a x AND maskOf bpe < 2 ^ bpe"
  by (simp_all add: and_mask OR_upper flip: take_bit_or)


lemma spanning_in_range:
  assumes "i < N" and "0 < bpe"
  shows "(i * bpe + bpe - 1) div 64 < expectedSpanning N bpe"
proof -
  from assms(1) have "Suc i \<le> N" by simp
  then have "Suc i * bpe \<le> N * bpe" by (rule mult_le_mono1)
  then have "i * bpe + bpe \<le> N * bpe" by (simp add: add.commute)
  with assms(2) have "(i * bpe + bpe - 1) + 64 \<le> N * bpe + 64 - 1" by simp
  then have "((i * bpe + bpe - 1) + 64) div 64 \<le> (N * bpe + 64 - 1) div 64"
    by (rule div_le_mono)
  then show ?thesis by (simp add: expectedSpanning_def ceilDiv_def)
qed

lemma forIndices_total:
  "\<forall>i \<in> set js. \<exists>v. body i = Inr v \<Longrightarrow>
   \<exists>vs. forIndices body js = Inr vs \<and> length vs = length js"
proof (induction js)
  case Nil
  then show ?case by simp
next
  case (Cons j js)
  then obtain v where "body j = Inr v" by auto
  moreover from Cons obtain vs where "forIndices body js = Inr vs" "length vs = length js"
    by auto
  ultimately show ?case by simp
qed

lemma forIndices_nth:
  "forIndices body js = Inr vs \<Longrightarrow> k < length js \<Longrightarrow> body (js ! k) = Inr (vs ! k)"
proof (induction js arbitrary: vs k)
  case Nil
  then show ?case by simp
next
  case (Cons j js)
  from Cons.prems(1) obtain v vs' where v: "body j = Inr v" "forIndices body js = Inr vs'"
    "vs = v # vs'"
    by (auto split: sum.splits)
  show ?case
  proof (cases k)
    case 0
    with v show ?thesis by simp
  next
    case (Suc k')
    with Cons.prems(2) have "k' < length js" by simp
    from Cons.IH [OF v(2) this] Suc v(3) show ?thesis by simp
  qed
qed

lemma toInt32_small:
  assumes "0 \<le> v" and "v < 2 ^ bpe" and "bpe \<le> 31"
  shows "sint (toInt32 v) = v"
proof -
  have "(2::int) ^ bpe \<le> 2 ^ 31" using assms(3) by (intro power_increasing) simp_all
  with assms(2) have "v < 2 ^ 31" by linarith
  with assms(1) show ?thesis
    by (simp add: toInt32_def signed_of_int signed_take_bit_int_eq_self)
qed

lemma spanning_words_present:
  assumes "length ws = expectedSpanning N bpe" and "k < N" and "0 < bpe"
  shows "(k * bpe) div 64 < length ws" and "(k * bpe + bpe - 1) div 64 < length ws"
proof -
  from spanning_in_range [OF assms(2,3)] assms(1)
  show e: "(k * bpe + bpe - 1) div 64 < length ws" by simp
  have "k * bpe \<le> k * bpe + bpe - 1" using assms(3) by simp
  then have "(k * bpe) div 64 \<le> (k * bpe + bpe - 1) div 64" by (rule div_le_mono)
  with e show "(k * bpe) div 64 < length ws" by simp
qed

lemma spanning_loop_total:
  assumes "length ws = expectedSpanning N bpe" and "0 < bpe"
  shows "\<exists>vs. forIndices (\<lambda>i. map_sum id toInt32 (spanningEntry ws bpe i)) [0 ..< N] = Inr vs
              \<and> length vs = N"
proof -
  have "\<forall>k \<in> set [0 ..< N]. \<exists>v. map_sum id toInt32 (spanningEntry ws bpe k) = Inr v"
  proof
    fix k assume "k \<in> set [0 ..< N]"
    then have "k < N" by simp
    from spanning_words_present(1) [OF assms(1) this assms(2)]
    show "\<exists>v. map_sum id toInt32 (spanningEntry ws bpe k) = Inr v"
      by (simp add: spanningEntry_value)
  qed
  from forIndices_total [OF this] show ?thesis by simp
qed

lemma decodeBlockStates_total:
  "\<exists>vs. decodeBlockStates ws P N = Inr vs \<and> length vs = N"
proof (cases "isSpanning ws N (bitsPerEntry P)")
  case True
  then have "length ws = expectedSpanning N (bitsPerEntry P)" by (simp add: isSpanning_def)
  moreover have "0 < bitsPerEntry P" by (simp add: bitsPerEntry_def)
  ultimately show ?thesis using True
    by (simp add: decodeBlockStates_def spanning_loop_total)
next
  case False
  then show ?thesis by (simp add: decodeBlockStates_def)
qed

lemma spanningEntry_spec:
  assumes "0 < bpe" and "bpe \<le> 64" and inr: "(i * bpe) div 64 < length ws"
  shows "\<exists>v. spanningEntry ws bpe i = Inr v
              \<and> v = (if (i * bpe) div 64 = (i * bpe + bpe - 1) div 64
                     then drop_bit ((i * bpe) mod 64) (unsignedWord ws ((i * bpe) div 64))
                            AND maskOf bpe
                     else (drop_bit ((i * bpe) mod 64) (unsignedWord ws ((i * bpe) div 64))
                            AND maskOf bpe)
                          OR (push_bit (64 - (i * bpe) mod 64)
                                (unsignedWord ws ((i * bpe + bpe - 1) div 64)) AND maskOf bpe))
              \<and> 0 \<le> v \<and> v < 2 ^ bpe
              \<and> (\<forall>j < bpe. bit v j \<longleftrightarrow> streamBit ws (i * bpe + j))"
proof -
  define sb where "sb = i * bpe"
  from inr have inr: "sb div 64 < length ws" by (simp add: sb_def)
  have "\<exists>v. spanningEntry ws bpe i = Inr v
              \<and> v = (if sb div 64 = (sb + bpe - 1) div 64
                     then drop_bit (sb mod 64) (unsignedWord ws (sb div 64)) AND maskOf bpe
                     else (drop_bit (sb mod 64) (unsignedWord ws (sb div 64)) AND maskOf bpe)
                          OR (push_bit (64 - sb mod 64)
                                (unsignedWord ws ((sb + bpe - 1) div 64)) AND maskOf bpe))
              \<and> 0 \<le> v \<and> v < 2 ^ bpe
              \<and> (\<forall>j < bpe. bit v j \<longleftrightarrow> streamBit ws (sb + j))"
  proof (cases "sb mod 64 + bpe \<le> 64")
    case True
    then have same: "sb div 64 = (sb + bpe - 1) div 64"
      by (simp only: same_word_iff [OF assms(1)])
    define v where "v = drop_bit (sb mod 64) (unsignedWord ws (sb div 64)) AND maskOf bpe"
    have 1: "spanningEntry ws bpe i = Inr v"
      using spanningEntry_value [of i bpe ws] inr same by (simp add: sb_def v_def)
    have 2: "0 \<le> v" "v < 2 ^ bpe"
      unfolding v_def by (rule entry_range)+
    have 3: "\<forall>j < bpe. bit v j \<longleftrightarrow> streamBit ws (sb + j)"
      unfolding v_def using entry_bit_same [OF True] by blast
    have 4: "v = (if sb div 64 = (sb + bpe - 1) div 64
                     then drop_bit (sb mod 64) (unsignedWord ws (sb div 64)) AND maskOf bpe
                     else (drop_bit (sb mod 64) (unsignedWord ws (sb div 64)) AND maskOf bpe)
                          OR (push_bit (64 - sb mod 64)
                                (unsignedWord ws ((sb + bpe - 1) div 64)) AND maskOf bpe))"
      using same by (simp add: v_def)
    from 1 2 3 4 show ?thesis by blast
  next
    case False
    then have diff: "sb div 64 \<noteq> (sb + bpe - 1) div 64"
      by (simp only: same_word_iff [OF assms(1)]) simp
    have e: "(sb + bpe - 1) div 64 = Suc (sb div 64)"
      using assms(1,2) False by (rule end_word)
    define v where "v = (drop_bit (sb mod 64) (unsignedWord ws (sb div 64)) AND maskOf bpe)
                   OR (push_bit (64 - sb mod 64) (unsignedWord ws (Suc (sb div 64)))
                       AND maskOf bpe)"
    have 1: "spanningEntry ws bpe i = Inr v"
      using spanningEntry_value [of i bpe ws] inr diff e by (simp add: sb_def v_def)
    have 2: "0 \<le> v" "v < 2 ^ bpe"
      unfolding v_def by (rule entry_range)+
    have 3: "\<forall>j < bpe. bit v j \<longleftrightarrow> streamBit ws (sb + j)"
      unfolding v_def using entry_bit_next [OF False _ assms(2)] by blast
    have 4: "v = (if sb div 64 = (sb + bpe - 1) div 64
                     then drop_bit (sb mod 64) (unsignedWord ws (sb div 64)) AND maskOf bpe
                     else (drop_bit (sb mod 64) (unsignedWord ws (sb div 64)) AND maskOf bpe)
                          OR (push_bit (64 - sb mod 64)
                                (unsignedWord ws ((sb + bpe - 1) div 64)) AND maskOf bpe))"
      using diff e by (simp add: v_def)
    from 1 2 3 4 show ?thesis by blast
  qed
  then show ?thesis unfolding sb_def .
qed

lemma spanning_loop_entries:
  assumes l: "length ws = expectedSpanning N bpe" and b: "0 < bpe" "bpe \<le> 64"
  shows "\<exists>vs. forIndices (\<lambda>i. map_sum id toInt32 (spanningEntry ws bpe i)) [0 ..< N] = Inr vs
            \<and> length vs = N
            \<and> (\<forall>k < N. \<exists>v. spanningEntry ws bpe k = Inr v \<and> vs ! k = toInt32 v
                   \<and> 0 \<le> v \<and> v < 2 ^ bpe
                   \<and> (\<forall>j < bpe. bit v j \<longleftrightarrow> streamBit ws (k * bpe + j))
                   \<and> (bpe \<le> 31 \<longrightarrow> sint (vs ! k) = v))"
proof -
  from spanning_loop_total [OF l b(1)] obtain vs
    where vs: "forIndices (\<lambda>i. map_sum id toInt32 (spanningEntry ws bpe i)) [0 ..< N] = Inr vs"
      "length vs = N"
    by blast
  have "\<exists>v. spanningEntry ws bpe k = Inr v \<and> vs ! k = toInt32 v
                   \<and> 0 \<le> v \<and> v < 2 ^ bpe
                   \<and> (\<forall>j < bpe. bit v j \<longleftrightarrow> streamBit ws (k * bpe + j))
                   \<and> (bpe \<le> 31 \<longrightarrow> sint (vs ! k) = v)"
    if k: "k < N" for k
  proof -
    from spanning_words_present(1) [OF l k b(1)]
    have "(k * bpe) div 64 < length ws" .
    from spanningEntry_spec [OF b this] obtain v
      where v: "spanningEntry ws bpe k = Inr v" "0 \<le> v" "v < 2 ^ bpe"
        "\<forall>j < bpe. bit v j \<longleftrightarrow> streamBit ws (k * bpe + j)"
      by blast
    from forIndices_nth [OF vs(1), of k] k
    have "map_sum id toInt32 (spanningEntry ws bpe k) = Inr (vs ! k)" by simp
    with v(1) have e: "vs ! k = toInt32 v" by simp
    have "sint (vs ! k) = v" if "bpe \<le> 31"
      unfolding e using v(2,3) that by (rule toInt32_small)
    with v e show ?thesis by blast
  qed
  with vs show ?thesis by blast
qed

text \<open>
  C2: in the spanning loop (entries of \<open>0 < bitsPerEntry \<le> 64\<close> bits) entry \<open>i\<close> is the
  field of \<open>bitsPerEntry\<close> bits at bit offset \<open>i*bitsPerEntry\<close> of the word stream. When the
  entry lies in one word it is \<open>(word >> startBitOffset) & mask\<close>, otherwise the OR of the
  start word shifted right and the next word shifted left by \<open>64 - startBitOffset\<close>, each
  masked; the words are read as unsigned 64-bit numbers, and a next word that is not there
  reads as zero. In the spanning layout every word an entry needs is there, so the loop
  never fails: the decoder returns \<open>N\<close> indices, and index \<open>k\<close> of them is entry \<open>k\<close>, as
  stored in the \<open>Int32Array\<close> (unchanged when \<open>bitsPerEntry \<le> 31\<close>).
\<close>

theorem spanning_entry_extracts:
  assumes "0 < bpe" and "bpe \<le> 64"
  shows "((i * bpe) div 64 < length ws \<longrightarrow>
           (\<exists>v. spanningEntry ws bpe i = Inr v
              \<and> v = (if (i * bpe) div 64 = (i * bpe + bpe - 1) div 64
                     then drop_bit ((i * bpe) mod 64) (unsignedWord ws ((i * bpe) div 64))
                            AND maskOf bpe
                     else (drop_bit ((i * bpe) mod 64) (unsignedWord ws ((i * bpe) div 64))
                            AND maskOf bpe)
                          OR (push_bit (64 - (i * bpe) mod 64)
                                (unsignedWord ws ((i * bpe + bpe - 1) div 64)) AND maskOf bpe))
              \<and> 0 \<le> v \<and> v < 2 ^ bpe
              \<and> (\<forall>j < bpe. bit v j \<longleftrightarrow> streamBit ws (i * bpe + j))))
     \<and> (length ws = expectedSpanning N bpe \<and> i < N \<longrightarrow>
           (i * bpe) div 64 < length ws \<and> (i * bpe + bpe - 1) div 64 < length ws)
     \<and> (length ws = expectedSpanning N bpe \<longrightarrow>
           (\<exists>vs. forIndices (\<lambda>i. map_sum id toInt32 (spanningEntry ws bpe i)) [0 ..< N] = Inr vs
                 \<and> length vs = N
                 \<and> (\<forall>k < N. \<exists>v. spanningEntry ws bpe k = Inr v \<and> vs ! k = toInt32 v
                        \<and> 0 \<le> v \<and> v < 2 ^ bpe
                        \<and> (\<forall>j < bpe. bit v j \<longleftrightarrow> streamBit ws (k * bpe + j))
                        \<and> (bpe \<le> 31 \<longrightarrow> sint (vs ! k) = v))))
     \<and> (\<forall>P. bitsPerEntry P = bpe \<and> isSpanning ws N bpe \<longrightarrow>
           decodeBlockStates ws P N
             = forIndices (\<lambda>i. map_sum id toInt32 (spanningEntry ws bpe i)) [0 ..< N])"
proof (intro conjI impI allI)
  assume "(i * bpe) div 64 < length ws"
  with assms show "\<exists>v. spanningEntry ws bpe i = Inr v
              \<and> v = (if (i * bpe) div 64 = (i * bpe + bpe - 1) div 64
                     then drop_bit ((i * bpe) mod 64) (unsignedWord ws ((i * bpe) div 64))
                            AND maskOf bpe
                     else (drop_bit ((i * bpe) mod 64) (unsignedWord ws ((i * bpe) div 64))
                            AND maskOf bpe)
                          OR (push_bit (64 - (i * bpe) mod 64)
                                (unsignedWord ws ((i * bpe + bpe - 1) div 64)) AND maskOf bpe))
              \<and> 0 \<le> v \<and> v < 2 ^ bpe
              \<and> (\<forall>j < bpe. bit v j \<longleftrightarrow> streamBit ws (i * bpe + j))"
    by (rule spanningEntry_spec)
next
  assume a: "length ws = expectedSpanning N bpe \<and> i < N"
  then show "(i * bpe) div 64 < length ws"
    using spanning_words_present(1) [of ws N bpe i] assms(1) by blast
  from a show "(i * bpe + bpe - 1) div 64 < length ws"
    using spanning_words_present(2) [of ws N bpe i] assms(1) by blast
next
  assume "length ws = expectedSpanning N bpe"
  then show "\<exists>vs. forIndices (\<lambda>i. map_sum id toInt32 (spanningEntry ws bpe i)) [0 ..< N] = Inr vs
                 \<and> length vs = N
                 \<and> (\<forall>k < N. \<exists>v. spanningEntry ws bpe k = Inr v \<and> vs ! k = toInt32 v
                        \<and> 0 \<le> v \<and> v < 2 ^ bpe
                        \<and> (\<forall>j < bpe. bit v j \<longleftrightarrow> streamBit ws (k * bpe + j))
                        \<and> (bpe \<le> 31 \<longrightarrow> sint (vs ! k) = v))"
    using assms by (rule spanning_loop_entries)
next
  fix P
  assume "bitsPerEntry P = bpe \<and> isSpanning ws N bpe"
  then show "decodeBlockStates ws P N
             = forIndices (\<lambda>i. map_sum id toInt32 (spanningEntry ws bpe i)) [0 ..< N]"
    by (auto simp add: decodeBlockStates_def)
qed

theorem spanning_entry_extracts_witness:
  "(0::nat) < 3 \<and> (3::nat) \<le> 64
   \<and> (21 * 3) div 64 < length [0x8000000000000000, 3, 0 :: 64 word]
   \<and> length [0x8000000000000000, 3, 0 :: 64 word] = expectedSpanning 64 3 \<and> (21::nat) < 64
   \<and> spanningEntry [0x8000000000000000, 3, 0] 3 21 = Inr 7
   \<and> spanningEntry [0x8000000000000000] 3 21 = Inr 1
   \<and> bitsPerEntry 5 = 3 \<and> isSpanning [0x8000000000000000, 3, 0] 64 3
   \<and> map_sum id (\<lambda>vs. (length vs, sint (vs ! 21), sint (vs ! 22)))
        (decodeBlockStates [0x8000000000000000, 3, 0] 5 64) = Inr (64, 7, 0)"
proof -
  have h: "(0::nat) < 3" "(3::nat) \<le> 64" by simp_all
  have l: "length [0x8000000000000000, 3, 0 :: 64 word] = expectedSpanning 64 3"
    by (simp add: expectedSpanning_def ceilDiv_def)
  have u: "unsignedWord [0x8000000000000000, 3, 0] 0 = 2 ^ 63"
    "unsignedWord [0x8000000000000000, 3, 0] (Suc 0) = 3"
    "unsignedWord [0x8000000000000000] 0 = 2 ^ 63"
    "unsignedWord [0x8000000000000000] (Suc 0) = 0"
    by (simp_all add: unsignedWord_def wordAt_def)
  have m: "maskOf 3 = 7" by (simp add: maskOf_def)
  have d: "drop_bit 63 ((2::int) ^ 63) = 1" by (simp add: drop_bit_eq_div)
  have p: "bitsPerEntry 5 = 3" by code_simp
  have s: "isSpanning [0x8000000000000000, 3, 0] 64 3" by code_simp
  have e: "spanningEntry [0x8000000000000000, 3, 0] 3 22 = Inr 0" by code_simp
  note t = spanning_entry_extracts [OF h, of 21 "[0x8000000000000000, 3, 0]" 64]
  from t [THEN conjunct1] have a: "spanningEntry [0x8000000000000000, 3, 0] 3 21 = Inr 7"
    by (simp add: u m d)
  from spanning_entry_extracts [OF h, of 21 "[0x8000000000000000]" 64, THEN conjunct1]
  have b: "spanningEntry [0x8000000000000000] 3 21 = Inr 1"
    by (simp add: u m d)
  from t [THEN conjunct2, THEN conjunct2, THEN conjunct1, rule_format, OF l] obtain vs
    where vs: "forIndices (\<lambda>i. map_sum id toInt32 (spanningEntry [0x8000000000000000, 3, 0] 3 i))
                 [0 ..< 64] = Inr vs"
      "length vs = 64"
      and ent: "\<And>k. k < 64 \<Longrightarrow> \<exists>v. spanningEntry [0x8000000000000000, 3, 0] 3 k = Inr v
          \<and> vs ! k = toInt32 v \<and> 0 \<le> v \<and> v < 2 ^ 3
          \<and> (\<forall>j < 3. bit v j \<longleftrightarrow> streamBit [0x8000000000000000, 3, 0] (k * 3 + j))
          \<and> ((3::nat) \<le> 31 \<longrightarrow> sint (vs ! k) = v)"
    by blast
  from ent [of 21] a have v21: "sint (vs ! 21) = 7" by auto
  from ent [of 22] e have v22: "sint (vs ! 22) = 0" by auto
  from t [THEN conjunct2, THEN conjunct2, THEN conjunct2, rule_format, of 5] p s
  have "decodeBlockStates [0x8000000000000000, 3, 0] 5 64
      = forIndices (\<lambda>i. map_sum id toInt32 (spanningEntry [0x8000000000000000, 3, 0] 3 i))
          [0 ..< 64]"
    by simp
  with vs v21 v22 have c: "map_sum id (\<lambda>vs. (length vs, sint (vs ! 21), sint (vs ! 22)))
        (decodeBlockStates [0x8000000000000000, 3, 0] 5 64) = Inr (64, 7, 0)"
    by simp
  from a b l p s c show ?thesis by simp
qed

section \<open>The two adapters\<close>

subsection \<open>Evaluation and unfolding\<close>

lemmas schem_eval =
  parseSchem_def decodeVarintArray_def newInt32Array_def schemName_def schemPaletteList_def
  maxIndex_def paletteSlot_def schemGetBlock_def schemIndex_def int32At_def orNull_def
  falsy_def isAir_def toLowerCase_def toLowerChar_def splitHead_def countNonAir_def
  gridCells_def schemAirIndex_def schemAirState_def

lemmas litematic_eval =
  parseLitematic_def parseRegion_def newInt32Array_def decodeBlockStates_def
  litematicName_def orElse_def
  stateString_def bitsPerEntry_def isSpanning_def expectedSpanning_def
  expectedNonSpanning_def ceilDiv_def nonSpanningEntry_def entriesPerLong_def wordAt_def
  asUintN64_def maskOf_def toInt32_def litematicGetBlock_def litematicIndex_def int32At_def
  stateAt_def orNull_def falsy_def isAir_def toLowerCase_def toLowerChar_def splitHead_def
  countNonAir_def gridCells_def litematicAirIndex_def litematicAirState_def

lemma parseSchem_present:
  assumes "Palette nbt = Some pal" and "BlockData nbt = Some a"
  shows "parseSchem maxLength nbt =
     (case decodeVarintArray maxLength (buffer a) (Width nbt * Height nbt * Length nbt) of
        Inl e \<Rightarrow> Inl e
      | Inr blockIndices \<Rightarrow>
          Inr \<lparr> width = Width nbt, height = Height nbt, lengthZ = Length nbt,
                name = schemName nbt, paletteList = schemPaletteList pal,
                getBlock = schemGetBlock (Width nbt) (Height nbt) (Length nbt) pal blockIndices,
                totalNonAir =
                  length (filter (\<lambda>v. \<not> schemAirIndex pal (sint v)) blockIndices) \<rparr>)"
  using assms by (simp add: parseSchem_def)

lemma first_region:
  "Regions nbt = Some ((rn, r) # rest) \<Longrightarrow>
   parseLitematic le maxLength nbt = parseRegion le maxLength (litematicName nbt rn) r"
  by (simp add: parseLitematic_def)

lemma parseRegion_overflow:
  assumes "BlockStatePalette r = Some bsp" and "bsp \<noteq> []" and "BlockStates r = Some ws"
    and "int maxLength < \<bar>fst (Size r)\<bar> * \<bar>fst (snd (Size r))\<bar> * \<bar>snd (snd (Size r))\<bar>"
  shows "parseRegion le maxLength nm r = Inl InvalidArrayLength"
proof -
  obtain sx sy sz where s: "Size r = (sx, sy, sz)" by (cases "Size r") auto
  show ?thesis using assms s
    by (simp add: parseRegion_def Let_def newInt32Array_def)
qed

lemma parseRegion_present:
  assumes "BlockStatePalette r = Some bsp" and "bsp \<noteq> []" and "BlockStates r = Some ws"
    and "\<bar>fst (Size r)\<bar> * \<bar>fst (snd (Size r))\<bar> * \<bar>snd (snd (Size r))\<bar> \<le> int maxLength"
  shows "\<exists>g. parseRegion le maxLength nm r = Inr g
           \<and> width g = \<bar>fst (Size r)\<bar> \<and> height g = \<bar>fst (snd (Size r))\<bar>
           \<and> lengthZ g = \<bar>snd (snd (Size r))\<bar>
           \<and> (width g * height g * lengthZ g = 0 \<longrightarrow> totalNonAir g = 0)"
proof -
  obtain sx sy sz where s: "Size r = (sx, sy, sz)" by (cases "Size r") auto
  have "0 \<le> \<bar>sx\<bar> * \<bar>sy\<bar> * \<bar>sz\<bar>" by simp
  then have nn: "\<not> \<bar>sx\<bar> * \<bar>sy\<bar> * \<bar>sz\<bar> < 0" by (simp only: not_less)
  from assms(4) s have le: "\<not> int maxLength < \<bar>sx\<bar> * \<bar>sy\<bar> * \<bar>sz\<bar>" by simp
  have a: "newInt32Array maxLength (\<bar>sx\<bar> * \<bar>sy\<bar> * \<bar>sz\<bar>)
      = Inr (nat (\<bar>sx\<bar> * \<bar>sy\<bar> * \<bar>sz\<bar>))"
    unfolding newInt32Array_def using nn le by (simp only: simp_thms if_False)
  obtain vs where v: "decodeBlockStates ws (length bsp) (nat (\<bar>sx\<bar> * \<bar>sy\<bar> * \<bar>sz\<bar>)) = Inr vs"
    "length vs = nat (\<bar>sx\<bar> * \<bar>sy\<bar> * \<bar>sz\<bar>)"
    using decodeBlockStates_total by blast
  show ?thesis using assms(1-3) s a v
    by (auto simp add: parseRegion_def Let_def)
qed

subsection \<open>Non-air count and air classification\<close>

text \<open>
  C3 (the code departs from it): \<open>totalNonAir\<close> should be the number of cells whose
  descriptor \<open>isAir\<close> does not classify as air. Each adapter counts with an air test of its
  own, and neither test knows the bare identifier \<open>air\<close>: on a one-cell schematic whose
  only palette entry is \<open>air\<close>, the cell is air for \<open>isAir\<close>, no cell is non-air, and both
  adapters report \<open>totalNonAir = 1\<close> (on any engine whose arrays hold one element or
  more).
\<close>

theorem bare_air_counted_as_block:
  "(\<exists>g. parseSchem (Suc maxLength)
           \<lparr> Width = 1, Height = 1, Length = 1, Metadata = None,
             Palette = Some [(''air'', 0)],
             BlockData = Some \<lparr> buffer = [0], byteOffset = 0, byteLength = 1 \<rparr> \<rparr> = Inr g
       \<and> getBlock g 0 0 0 = Some ''air'' \<and> isAir (getBlock g 0 0 0)
       \<and> countNonAir g = 0 \<and> totalNonAir g = 1)
   \<and> (\<exists>g. parseLitematic le (Suc maxLength)
            \<lparr> LitMetadata = None,
              Regions = Some [(''r'', \<lparr> Size = (1, 1, 1),
                  BlockStatePalette = Some [\<lparr> EntryName = ''air'', Properties = None \<rparr>],
                  BlockStates = Some [0] \<rparr>)] \<rparr> = Inr g
       \<and> getBlock g 0 0 0 = Some ''air'' \<and> isAir (getBlock g 0 0 0)
       \<and> countNonAir g = 0 \<and> totalNonAir g = 1)"
proof -
  have 1: "ceilLog2 (Suc 0) = 0" by (simp add: ceilLog2.simps [of "Suc 0"])
  show ?thesis
    by (rule conjI) (simp add: schem_eval, simp add: litematic_eval 1)
qed

text \<open>
  C9 (the code departs from it): in a grid of the dense-varint adapter \<open>getBlock\<close> never
  fails, and a cell whose palette index hits an unmapped slot or lies beyond the palette
  array reads as \<open>null\<close>; such cells should not count in \<open>totalNonAir\<close>. The cell beyond
  the array does count: with the palette \<open>{minecraft:stone: 0}\<close> and the single index
  \<open>5\<close> the cell has no block, and \<open>totalNonAir\<close> is \<open>1\<close>.
\<close>

theorem index_beyond_palette_counted:
  "\<exists>g. parseSchem (Suc maxLength)
          \<lparr> Width = 1, Height = 1, Length = 1, Metadata = None,
            Palette = Some [(''minecraft:stone'', 0)],
            BlockData = Some \<lparr> buffer = [5], byteOffset = 0, byteLength = 1 \<rparr> \<rparr> = Inr g
       \<and> paletteList g = [Some ''minecraft:stone'']
       \<and> getBlock g 0 0 0 = None \<and> isAir (getBlock g 0 0 0)
       \<and> countNonAir g = 0 \<and> totalNonAir g = 1"
  by (simp add: schem_eval)

subsection \<open>Dimensions\<close>

text \<open>
  C8 does not hold as stated: a zero \<open>Width\<close> is no error, the dense-varint adapter
  returns a grid for it.
\<close>

theorem zero_dimension_accepted:
  "\<not> isl (parseSchem 4294967295
             \<lparr> Width = 0, Height = 4, Length = 4, Metadata = None,
               Palette = Some [(''minecraft:air'', 0)],
               BlockData = Some \<lparr> buffer = [], byteOffset = 0, byteLength = 0 \<rparr> \<rparr>)"
  by (simp add: schem_eval)

text \<open>
  C8, amended: with the other fields present, an adapter fails, and returns no grid, when
  the product of its dimensions is one the engine cannot allocate: a negative
  \<open>Width*Height*Length\<close> or one beyond the longest \<open>Int32Array\<close> for the dense-varint
  adapter, a product of the absolute \<open>Size\<close> components beyond that length for the
  bit-packed adapter. The failure is the range error of the allocation, which the parser
  lets through. A zero product is no error: the adapter returns an empty grid with
  \<open>totalNonAir = 0\<close>. Negative \<open>Size\<close> components are no error either: the bit-packed
  adapter's dimensions are their absolute values.
\<close>

theorem dimensions_unchecked:
  "(Palette nbt \<noteq> None \<and> BlockData nbt \<noteq> None \<longrightarrow>
      (Width nbt * Height nbt * Length nbt < 0
         \<or> int maxLength < Width nbt * Height nbt * Length nbt \<longrightarrow>
       parseSchem maxLength nbt = Inl InvalidArrayLength)
      \<and> (Width nbt * Height nbt * Length nbt = 0 \<longrightarrow>
           (\<exists>g. parseSchem maxLength nbt = Inr g \<and> width g = Width nbt
                \<and> height g = Height nbt \<and> lengthZ g = Length nbt \<and> totalNonAir g = 0)))
   \<and> (Regions lnbt = Some ((rn, r) # rest)
       \<and> BlockStatePalette r = Some bsp \<and> bsp \<noteq> [] \<and> BlockStates r = Some ws \<longrightarrow>
        (int maxLength < \<bar>fst (Size r)\<bar> * \<bar>fst (snd (Size r))\<bar> * \<bar>snd (snd (Size r))\<bar> \<longrightarrow>
           parseLitematic le maxLength lnbt = Inl InvalidArrayLength)
        \<and> (\<bar>fst (Size r)\<bar> * \<bar>fst (snd (Size r))\<bar> * \<bar>snd (snd (Size r))\<bar> \<le> int maxLength \<longrightarrow>
           (\<exists>g. parseLitematic le maxLength lnbt = Inr g
              \<and> width g = \<bar>fst (Size r)\<bar> \<and> height g = \<bar>fst (snd (Size r))\<bar>
              \<and> lengthZ g = \<bar>snd (snd (Size r))\<bar>
              \<and> (width g * height g * lengthZ g = 0 \<longrightarrow> totalNonAir g = 0))))"
proof (intro conjI impI)
  assume "Palette nbt \<noteq> None \<and> BlockData nbt \<noteq> None"
    and "Width nbt * Height nbt * Length nbt < 0
         \<or> int maxLength < Width nbt * Height nbt * Length nbt"
  then show "parseSchem maxLength nbt = Inl InvalidArrayLength"
    by (auto simp add: parseSchem_present decodeVarintArray_def newInt32Array_def)
next
  assume "Palette nbt \<noteq> None \<and> BlockData nbt \<noteq> None"
    and "Width nbt * Height nbt * Length nbt = 0"
  then show "\<exists>g. parseSchem maxLength nbt = Inr g \<and> width g = Width nbt
                \<and> height g = Height nbt \<and> lengthZ g = Length nbt \<and> totalNonAir g = 0"
    by (auto simp add: parseSchem_present decodeVarintArray_def newInt32Array_def)
next
  assume "Regions lnbt = Some ((rn, r) # rest)
       \<and> BlockStatePalette r = Some bsp \<and> bsp \<noteq> [] \<and> BlockStates r = Some ws"
    and "int maxLength < \<bar>fst (Size r)\<bar> * \<bar>fst (snd (Size r))\<bar> * \<bar>snd (snd (Size r))\<bar>"
  then show "parseLitematic le maxLength lnbt = Inl InvalidArrayLength"
    using parseRegion_overflow [of r bsp ws maxLength le "litematicName lnbt rn"]
    by (simp add: first_region)
next
  assume "Regions lnbt = Some ((rn, r) # rest)
       \<and> BlockStatePalette r = Some bsp \<and> bsp \<noteq> [] \<and> BlockStates r = Some ws"
    and "\<bar>fst (Size r)\<bar> * \<bar>fst (snd (Size r))\<bar> * \<bar>snd (snd (Size r))\<bar> \<le> int maxLength"
  then show "\<exists>g. parseLitematic le maxLength lnbt = Inr g
           \<and> width g = \<bar>fst (Size r)\<bar> \<and> height g = \<bar>fst (snd (Size r))\<bar>
           \<and> lengthZ g = \<bar>snd (snd (Size r))\<bar>
           \<and> (width g * height g * lengthZ g = 0 \<longrightarrow> totalNonAir g = 0)"
    using parseRegion_present [of r bsp ws maxLength le "litematicName lnbt rn"]
    by (simp add: first_region)
qed

theorem dimensions_unchecked_witness:
  "parseSchem 4294967295
      \<lparr> Width = - 1, Height = 1, Length = 1, Metadata = None,
        Palette = Some [(''minecraft:air'', 0)],
        BlockData = Some \<lparr> buffer = [], byteOffset = 0, byteLength = 0 \<rparr> \<rparr>
     = Inl InvalidArrayLength
   \<and> parseSchem 4294967295
      \<lparr> Width = 2147483647, Height = 2147483647, Length = 1, Metadata = None,
        Palette = Some [(''minecraft:air'', 0)],
        BlockData = Some \<lparr> buffer = [], byteOffset = 0, byteLength = 0 \<rparr> \<rparr>
     = Inl InvalidArrayLength
   \<and> map_sum id totalNonAir
        (parseSchem 4294967295
           \<lparr> Width = 0, Height = 4, Length = 4, Metadata = None,
             Palette = Some [(''minecraft:air'', 0)],
             BlockData = Some \<lparr> buffer = [], byteOffset = 0, byteLength = 0 \<rparr> \<rparr>)
     = Inr 0
   \<and> parseLitematic (\<lambda>a b. True) 4294967295
        \<lparr> LitMetadata = None,
          Regions = Some [(''r'', \<lparr> Size = (2147483647, - 2147483647, 1),
              BlockStatePalette = Some [\<lparr> EntryName = ''minecraft:air'', Properties = None \<rparr>],
              BlockStates = Some [] \<rparr>)] \<rparr>
     = Inl InvalidArrayLength
   \<and> map_sum id (\<lambda>g. (width g, height g, lengthZ g, totalNonAir g))
        (parseLitematic (\<lambda>a b. True) 4294967295
           \<lparr> LitMetadata = None,
             Regions = Some [(''r'', \<lparr> Size = (- 2, 0, 3),
                 BlockStatePalette = Some [\<lparr> EntryName = ''minecraft:air'', Properties = None \<rparr>],
                 BlockStates = Some [] \<rparr>)] \<rparr>)
     = Inr (2, 0, 3, 0)"
proof -
  let ?empty = "\<lparr> buffer = [], byteOffset = 0, byteLength = 0 \<rparr>"
  let ?neg = "\<lparr> Width = - 1, Height = 1, Length = 1, Metadata = None,
                 Palette = Some [(''minecraft:air'', 0)], BlockData = Some ?empty \<rparr>"
  let ?big = "\<lparr> Width = 2147483647, Height = 2147483647, Length = 1, Metadata = None,
                 Palette = Some [(''minecraft:air'', 0)], BlockData = Some ?empty \<rparr>"
  let ?zero = "\<lparr> Width = 0, Height = 4, Length = 4, Metadata = None,
                 Palette = Some [(''minecraft:air'', 0)], BlockData = Some ?empty \<rparr>"
  let ?pal = "[\<lparr> EntryName = ''minecraft:air'', Properties = None \<rparr>]"
  let ?r = "\<lparr> Size = (- 2, 0, 3), BlockStatePalette = Some ?pal, BlockStates = Some [] \<rparr>"
  let ?rbig = "\<lparr> Size = (2147483647, - 2147483647, 1), BlockStatePalette = Some ?pal,
                 BlockStates = Some [] \<rparr>"
  let ?lit = "\<lparr> LitMetadata = None, Regions = Some [(''r'', ?r)] \<rparr>"
  let ?litbig = "\<lparr> LitMetadata = None, Regions = Some [(''r'', ?rbig)] \<rparr>"
  from dimensions_unchecked [where nbt = ?neg and lnbt = ?lit and rn = "''r''" and r = ?r
      and rest = "[]" and bsp = ?pal and ws = "[]" and le = "\<lambda>a b. True"
      and maxLength = 4294967295]
  have 1: "parseSchem 4294967295 ?neg = Inl InvalidArrayLength"
    and 5: "map_sum id (\<lambda>g. (width g, height g, lengthZ g, totalNonAir g))
              (parseLitematic (\<lambda>a b. True) 4294967295 ?lit) = Inr (2, 0, 3, 0)"
    by auto
  from dimensions_unchecked [where nbt = ?big and lnbt = ?litbig and rn = "''r''" and r = ?rbig
      and rest = "[]" and bsp = ?pal and ws = "[]" and le = "\<lambda>a b. True"
      and maxLength = 4294967295]
  have 2: "parseSchem 4294967295 ?big = Inl InvalidArrayLength"
    and 4: "parseLitematic (\<lambda>a b. True) 4294967295 ?litbig = Inl InvalidArrayLength"
    by auto
  from dimensions_unchecked [where nbt = ?zero and lnbt = ?lit and rn = "''r''" and r = ?r
      and rest = "[]" and bsp = ?pal and ws = "[]" and le = "\<lambda>a b. True"
      and maxLength = 4294967295]
  have 3: "map_sum id totalNonAir (parseSchem 4294967295 ?zero) = Inr 0"
    by auto
  from 1 2 3 4 5 show ?thesis by (intro conjI)
qed

subsection \<open>Regions beyond the first\<close>

text \<open>
  C10: the bit-packed adapter reads \<open>Metadata\<close> and the first enumerated region (key and
  contents) only: on two trees that agree on these it returns the same result, whatever
  other regions they hold: the same dimensions, palette list, \<open>getBlock\<close>, name and
  \<open>totalNonAir\<close>, or the same error.
\<close>

theorem first_region_only:
  assumes "LitMetadata a = LitMetadata b"
    and "map_option (take 1) (Regions a) = map_option (take 1) (Regions b)"
  shows "parseLitematic le maxLength a = parseLitematic le maxLength b"
proof -
  have n: "litematicName a rn = litematicName b rn" for rn
    by (simp add: litematicName_def assms(1))
  show ?thesis
  proof (cases "Regions a")
    case None
    with assms(2) show ?thesis by (simp add: parseLitematic_def)
  next
    case (Some ra)
    with assms(2) obtain rb where rb: "Regions b = Some rb" "take 1 ra = take 1 rb"
      by (cases "Regions b") auto
    show ?thesis
    proof (cases ra)
      case Nil
      with rb have "rb = []" by simp
      with Nil Some rb show ?thesis by (simp add: parseLitematic_def)
    next
      case (Cons p ra')
      obtain rn r where p: "p = (rn, r)" by (cases p)
      from Cons rb obtain rb' where "rb = p # rb'" by (cases rb) auto
      with Cons Some rb p n show ?thesis by (simp add: first_region)
    qed
  qed
qed

theorem first_region_only_witness:
  "LitMetadata
       \<lparr> LitMetadata = None,
          Regions = Some [(''main'', \<lparr> Size = (1, 1, 1),
            BlockStatePalette = Some [\<lparr> EntryName = ''minecraft:stone'', Properties = None \<rparr>],
            BlockStates = Some [0] \<rparr>),
                          (''extra'', \<lparr> Size = (2, 2, 2), BlockStatePalette = None, BlockStates = None \<rparr>)] \<rparr>
     = LitMetadata
       \<lparr> LitMetadata = None,
          Regions = Some [(''main'', \<lparr> Size = (1, 1, 1),
            BlockStatePalette = Some [\<lparr> EntryName = ''minecraft:stone'', Properties = None \<rparr>],
            BlockStates = Some [0] \<rparr>)] \<rparr>
   \<and> map_option (take 1) (Regions
       \<lparr> LitMetadata = None,
          Regions = Some [(''main'', \<lparr> Size = (1, 1, 1),
            BlockStatePalette = Some [\<lparr> EntryName = ''minecraft:stone'', Properties = None \<rparr>],
            BlockStates = Some [0] \<rparr>),
                          (''extra'', \<lparr> Size = (2, 2, 2), BlockStatePalette = None, BlockStates = None \<rparr>)] \<rparr>)
     = map_option (take 1) (Regions
       \<lparr> LitMetadata = None,
          Regions = Some [(''main'', \<lparr> Size = (1, 1, 1),
            BlockStatePalette = Some [\<lparr> EntryName = ''minecraft:stone'', Properties = None \<rparr>],
            BlockStates = Some [0] \<rparr>)] \<rparr>)
   \<and> parseLitematic (\<lambda>a b. True) 4294967295
       \<lparr> LitMetadata = None,
          Regions = Some [(''main'', \<lparr> Size = (1, 1, 1),
            BlockStatePalette = Some [\<lparr> EntryName = ''minecraft:stone'', Properties = None \<rparr>],
            BlockStates = Some [0] \<rparr>),
                          (''extra'', \<lparr> Size = (2, 2, 2), BlockStatePalette = None, BlockStates = None \<rparr>)] \<rparr>
     = parseLitematic (\<lambda>a b. True) 4294967295
       \<lparr> LitMetadata = None,
          Regions = Some [(''main'', \<lparr> Size = (1, 1, 1),
            BlockStatePalette = Some [\<lparr> EntryName = ''minecraft:stone'', Properties = None \<rparr>],
            BlockStates = Some [0] \<rparr>)] \<rparr>"
proof -
  let ?a = "\<lparr> LitMetadata = None,
          Regions = Some [(''main'', \<lparr> Size = (1, 1, 1),
            BlockStatePalette = Some [\<lparr> EntryName = ''minecraft:stone'', Properties = None \<rparr>],
            BlockStates = Some [0] \<rparr>),
                          (''extra'', \<lparr> Size = (2, 2, 2), BlockStatePalette = None, BlockStates = None \<rparr>)] \<rparr>"
  let ?b = "\<lparr> LitMetadata = None,
          Regions = Some [(''main'', \<lparr> Size = (1, 1, 1),
            BlockStatePalette = Some [\<lparr> EntryName = ''minecraft:stone'', Properties = None \<rparr>],
            BlockStates = Some [0] \<rparr>)] \<rparr>"
  have h: "LitMetadata ?a = LitMetadata ?b"
    "map_option (take 1) (Regions ?a) = map_option (take 1) (Regions ?b)"
    by simp_all
  from first_region_only [OF h, of "\<lambda>a b. True" 4294967295] h show ?thesis by (intro conjI)
qed

section \<open>Flood fill\<close>

subsection \<open>One visit, and the four visits around a cell\<close>

lemma visit_new:
  assumes "n \<in> sameBlock s layer baseId" and "n \<notin> set (cells st)"
  shows "cells (visit s layer baseId st n) = cells st @ [n]"
    and "queue (visit s layer baseId st n) = queue st @ [n]"
    and "minX (visit s layer baseId st n) = min (fst n) (minX st)"
    and "maxX (visit s layer baseId st n) = max (fst n) (maxX st)"
    and "minZ (visit s layer baseId st n) = min (snd n) (minZ st)"
    and "maxZ (visit s layer baseId st n) = max (snd n) (maxZ st)"
  using assms by (simp_all add: visit_cases)

lemma visit_old:
  assumes "n \<notin> sameBlock s layer baseId \<or> n \<in> set (cells st)"
  shows "visit s layer baseId st n = st"
  using assms by (auto simp add: visit_cases)

lemma visit_core:
  assumes core: "fillCore s layer baseId start st"
    and c: "c \<in> component s layer baseId start" and n: "n \<in> set (neighbors c)"
  shows "fillCore s layer baseId start (visit s layer baseId st n)"
proof (cases "n \<in> sameBlock s layer baseId \<and> n \<notin> set (cells st)")
  case False
  then have "visit s layer baseId st n = st" by (intro visit_old) blast
  with core show ?thesis by simp
next
  case True
  then have new: "n \<in> sameBlock s layer baseId" "n \<notin> set (cells st)" by blast+
  note v = visit_new [OF new]
  from c n new(1) have nc: "n \<in> component s layer baseId start" by (rule component.step)
  from core have ne: "set (cells st) \<noteq> {}" by (auto simp add: fillCore_def)
  have fin: "finite (fst ` set (cells st))" "finite (snd ` set (cells st))" by simp_all
  have ne': "fst ` set (cells st) \<noteq> {}" "snd ` set (cells st) \<noteq> {}" using ne by simp_all
  have 1: "start \<in> set (cells st @ [n])" using core by (simp add: fillCore_def)
  have 2: "distinct (cells st @ [n])" using core new(2) by (simp add: fillCore_def)
  have 3: "set (queue st @ [n]) \<subseteq> set (cells st @ [n])"
    using core by (auto simp add: fillCore_def)
  have 4: "set (cells st @ [n]) \<subseteq> component s layer baseId start"
    using core nc by (simp add: fillCore_def)
  have 5: "min (fst n) (minX st) = Min (fst ` set (cells st @ [n]))"
    using core Min_insert [OF fin(1) ne'(1), of "fst n"] by (simp add: fillCore_def)
  have 6: "max (fst n) (maxX st) = Max (fst ` set (cells st @ [n]))"
    using core Max_insert [OF fin(1) ne'(1), of "fst n"] by (simp add: fillCore_def)
  have 7: "min (snd n) (minZ st) = Min (snd ` set (cells st @ [n]))"
    using core Min_insert [OF fin(2) ne'(2), of "snd n"] by (simp add: fillCore_def)
  have 8: "max (snd n) (maxZ st) = Max (snd ` set (cells st @ [n]))"
    using core Max_insert [OF fin(2) ne'(2), of "snd n"] by (simp add: fillCore_def)
  from 1 2 3 4 5 6 7 8 show ?thesis
    unfolding fillCore_def v by blast
qed

lemma visit_done:
  "set (cells (visit s layer baseId st n)) - set (queue (visit s layer baseId st n))
     = set (cells st) - set (queue st)"
  by (auto simp add: visit_cases)

lemma visit_mono: "set (cells st) \<subseteq> set (cells (visit s layer baseId st n))"
  by (auto simp add: visit_cases)

lemma visit_found:
  "n \<in> sameBlock s layer baseId \<Longrightarrow> n \<in> set (cells (visit s layer baseId st n))"
  by (auto simp add: visit_cases)

lemma foldl_visit_core:
  assumes "fillCore s layer baseId start st"
    and "c \<in> component s layer baseId start" and "set ns \<subseteq> set (neighbors c)"
  shows "fillCore s layer baseId start (foldl (visit s layer baseId) st ns)"
  using assms
proof (induction ns arbitrary: st)
  case Nil
  then show ?case by simp
next
  case (Cons n ns)
  from Cons.prems have "fillCore s layer baseId start (visit s layer baseId st n)"
    by (intro visit_core [where c = c]) simp_all
  with Cons show ?case by simp
qed

lemma foldl_visit_done:
  "set (cells (foldl (visit s layer baseId) st ns)) - set (queue (foldl (visit s layer baseId) st ns))
     = set (cells st) - set (queue st)"
  by (induction ns arbitrary: st) (simp_all add: visit_done)

lemma foldl_visit_mono: "set (cells st) \<subseteq> set (cells (foldl (visit s layer baseId) st ns))"
proof (induction ns arbitrary: st)
  case Nil
  show ?case by simp
next
  case (Cons n ns)
  have "set (cells st) \<subseteq> set (cells (visit s layer baseId st n))" by (rule visit_mono)
  also have "\<dots> \<subseteq> set (cells (foldl (visit s layer baseId) (visit s layer baseId st n) ns))"
    by (rule Cons.IH)
  finally show ?case by simp
qed

lemma foldl_visit_found:
  "n \<in> set ns \<Longrightarrow> n \<in> sameBlock s layer baseId \<Longrightarrow>
   n \<in> set (cells (foldl (visit s layer baseId) st ns))"
proof (induction ns arbitrary: st)
  case Nil
  then show ?case by simp
next
  case (Cons m ns)
  show ?case
  proof (cases "n = m")
    case True
    with Cons.prems have "n \<in> set (cells (visit s layer baseId st m))"
      by (simp add: visit_found)
    then show ?thesis using foldl_visit_mono by fastforce
  next
    case False
    with Cons show ?thesis by simp
  qed
qed

lemma bfs_step:
  assumes core: "fillCore s layer baseId start st" and closed: "fillClosed s layer baseId st"
    and q: "queue st = c # rest"
  defines "st' \<equiv> foldl (visit s layer baseId) (st\<lparr> queue := rest \<rparr>) (neighbors c)"
  shows "fillCore s layer baseId start st'" and "fillClosed s layer baseId st'"
proof -
  from core q have cc: "c \<in> set (cells st)" by (auto simp add: fillCore_def)
  with core have comp: "c \<in> component s layer baseId start" by (auto simp add: fillCore_def)
  from core q have "fillCore s layer baseId start (st\<lparr> queue := rest \<rparr>)"
    by (auto simp add: fillCore_def)
  then show "fillCore s layer baseId start st'"
    unfolding st'_def using comp by (rule foldl_visit_core) simp
  have dset: "set (cells st') - set (queue st') = set (cells st) - set rest"
    unfolding st'_def by (simp add: foldl_visit_done)
  have mono: "set (cells st) \<subseteq> set (cells st')"
    unfolding st'_def using foldl_visit_mono [of "st\<lparr> queue := rest \<rparr>"] by simp
  show "fillClosed s layer baseId st'"
    unfolding fillClosed_def
  proof (intro ballI impI)
    fix d n
    assume d: "d \<in> set (cells st') - set (queue st')" and n: "n \<in> set (neighbors d)"
      and a: "n \<in> sameBlock s layer baseId"
    from d dset have d': "d \<in> set (cells st)" "d \<notin> set rest" by auto
    show "n \<in> set (cells st')"
    proof (cases "d = c")
      case True
      with n a show ?thesis unfolding st'_def by (simp add: foldl_visit_found)
    next
      case False
      with d' q have "d \<in> set (cells st) - set (queue st)" by simp
      with closed n a have "n \<in> set (cells st)" unfolding fillClosed_def by blast
      with mono show ?thesis by blast
    qed
  qed
qed

lemma bfs_correct:
  assumes "fillCore s layer baseId start st" and "fillClosed s layer baseId st"
  shows "fillCore s layer baseId start (bfs s layer baseId st)
         \<and> fillClosed s layer baseId (bfs s layer baseId st)
         \<and> queue (bfs s layer baseId st) = []"
  using assms
proof (induction s layer baseId st rule: bfs.induct)
  case (1 s layer baseId st)
  show ?case
  proof (cases "queue st")
    case Nil
    with "1.prems" show ?thesis by (simp add: bfs.simps [of s layer baseId st])
  next
    case (Cons c rest)
    from bfs_step [OF "1.prems" Cons]
    have "fillCore s layer baseId start
            (bfs s layer baseId (foldl (visit s layer baseId) (st\<lparr> queue := rest \<rparr>) (neighbors c)))
         \<and> fillClosed s layer baseId
            (bfs s layer baseId (foldl (visit s layer baseId) (st\<lparr> queue := rest \<rparr>) (neighbors c)))
         \<and> queue (bfs s layer baseId (foldl (visit s layer baseId) (st\<lparr> queue := rest \<rparr>) (neighbors c))) = []"
      by (intro "1.IH" [OF Cons])
    then show ?thesis using Cons by (simp add: bfs.simps [of s layer baseId st])
  qed
qed

lemma closed_component:
  assumes "start \<in> set (cells st)" and "fillClosed s layer baseId st" and "queue st = []"
  shows "component s layer baseId start \<subseteq> set (cells st)"
proof
  fix c assume "c \<in> component s layer baseId start"
  then show "c \<in> set (cells st)"
  proof (induction rule: component.induct)
    case start
    from assms(1) show ?case .
  next
    case (step c n)
    with assms(2,3) show ?case unfolding fillClosed_def by simp
  qed
qed


subsection \<open>Base identifiers and air\<close>

lemma toLowerChar_idem: "toLowerChar (toLowerChar c) = toLowerChar c"
  by (cases c) (auto simp add: toLowerChar_def)

lemma toLowerChar_bracket: "toLowerChar c = CHR ''['' \<longleftrightarrow> c = CHR ''[''"
  by (cases c) (auto simp add: toLowerChar_def)

lemma set_removeFirst: "set (removeFirst pat xs) \<subseteq> set xs"
proof (induction xs)
  case Nil
  show ?case by simp
next
  case (Cons x xs)
  have "set (drop (length pat) (x # xs)) \<subseteq> set (x # xs)" by (rule set_drop_subset)
  with Cons show ?case by auto
qed

lemma baseId_plain:
  assumes "getBaseBlockId bs = Some b"
  shows "CHR ''['' \<notin> set b" and "toLowerCase b = b"
proof -
  from assms obtain d where b: "b = removeFirst ''minecraft:'' (toLowerCase (splitHead d))"
    by (auto simp add: getBaseBlockId_def split: if_splits)
  have sub: "set b \<subseteq> toLowerChar ` set (splitHead d)"
    unfolding b using set_removeFirst [of "''minecraft:''" "toLowerCase (splitHead d)"]
    by (simp add: toLowerCase_def)
  show "CHR ''['' \<notin> set b"
  proof
    assume "CHR ''['' \<in> set b"
    with sub obtain c where "c \<in> set (splitHead d)" "toLowerChar c = CHR ''[''" by auto
    then have "CHR ''['' \<in> set (takeWhile (\<lambda>c. c \<noteq> CHR ''['') d)"
      by (simp add: toLowerChar_bracket splitHead_def)
    then show False by (auto dest: set_takeWhileD)
  qed
  have "\<forall>c \<in> set b. toLowerChar c = c"
  proof
    fix c assume "c \<in> set b"
    with sub obtain c' where "c = toLowerChar c'" by auto
    then show "toLowerChar c = c" by (simp add: toLowerChar_idem)
  qed
  then show "toLowerCase b = b" by (simp add: toLowerCase_def map_idI)
qed

lemma isAir_namespaced:
  assumes "CHR ''['' \<notin> set b" and "toLowerCase b = b"
  shows "isAir (Some (''minecraft:'' @ b)) \<longleftrightarrow> b = ''air'' \<or> b = ''cave_air'' \<or> b = ''void_air''"
proof -
  have "splitHead (''minecraft:'' @ b) = ''minecraft:'' @ b"
    unfolding splitHead_def using assms(1) by (subst takeWhile_eq_all_conv) auto
  moreover have "toLowerCase (''minecraft:'' @ b) = ''minecraft:'' @ b"
    using assms(2) by (simp add: toLowerCase_def toLowerChar_def)
  ultimately show ?thesis
    by (simp add: isAir_def falsy_def Let_def)
qed

lemma isAir_baseId:
  assumes "isAir bs"
  shows "falsy (getBaseBlockId bs) \<or> isAir (Some (''minecraft:'' @ the (getBaseBlockId bs)))"
proof (cases "falsy bs")
  case True
  then show ?thesis by (simp add: getBaseBlockId_def falsy_def)
next
  case False
  with assms have "toLowerCase (splitHead (the bs)) \<in>
      {''minecraft:air'', ''minecraft:cave_air'', ''minecraft:void_air'', ''air''}"
    by (simp add: isAir_def Let_def)
  then have "the (getBaseBlockId bs) \<in> {''air'', ''cave_air'', ''void_air''}"
    using False by (auto simp add: getBaseBlockId_def)
  then show ?thesis
    by (auto simp add: isAir_def falsy_def toLowerCase_def toLowerChar_def splitHead_def)
qed

subsection \<open>The result of a fill\<close>

lemma floodFill_None:
  "floodFill s layer sx sz = None \<longleftrightarrow>
     falsy (getBaseBlockId (getBlock s sx layer sz))
     \<or> isAir (Some (''minecraft:'' @ the (getBaseBlockId (getBlock s sx layer sz))))"
  by (simp add: floodFill_def Let_def)

lemma floodFill_Some:
  assumes bnd: "bounded s"
    and id: "getBaseBlockId (getBlock s sx layer sz) = Some baseId"
    and ne: "baseId \<noteq> []" and na: "\<not> isAir (Some (''minecraft:'' @ baseId))"
  shows "\<exists>r. floodFill s layer sx sz = Some r
           \<and> set (cells r) = component s layer baseId (sx, sz)
           \<and> distinct (cells r)
           \<and> count r = card (component s layer baseId (sx, sz))
           \<and> minX r = Min (fst ` component s layer baseId (sx, sz))
           \<and> maxX r = Max (fst ` component s layer baseId (sx, sz))
           \<and> minZ r = Min (snd ` component s layer baseId (sx, sz))
           \<and> maxZ r = Max (snd ` component s layer baseId (sx, sz))
           \<and> boxW r = maxX r - minX r + 1 \<and> boxH r = maxZ r - minZ r + 1"
proof -
  define init :: fillState where
    "init = \<lparr> cells = [(sx, sz)], minX = sx, minZ = sz, maxX = sx, maxZ = sz,
              queue = [(sx, sz)] \<rparr>"
  define st where "st = bfs s layer baseId init"
  from id have "getBlock s sx layer sz \<noteq> None"
    by (auto simp add: getBaseBlockId_def falsy_def split: if_splits option.splits)
  with bnd have "0 \<le> sx \<and> sx < width s \<and> 0 \<le> sz \<and> sz < lengthZ s"
    unfolding bounded_def by blast
  with id have "(sx, sz) \<in> sameBlock s layer baseId" by (simp add: sameBlock_def)
  then have "(sx, sz) \<in> component s layer baseId (sx, sz)" by (rule component.start)
  then have "fillCore s layer baseId (sx, sz) init" and "fillClosed s layer baseId init"
    by (simp_all add: fillCore_def fillClosed_def init_def)
  then have fin: "fillCore s layer baseId (sx, sz) st" "fillClosed s layer baseId st"
    "queue st = []"
    unfolding st_def using bfs_correct by blast+
  from fin(1) have "component s layer baseId (sx, sz) \<subseteq> set (cells st)"
    using fin(2,3) by (intro closed_component) (simp_all add: fillCore_def)
  with fin(1) have eq: "set (cells st) = component s layer baseId (sx, sz)"
    by (auto simp add: fillCore_def)
  from fin(1) have d: "distinct (cells st)" by (simp add: fillCore_def)
  then have c: "length (cells st) = card (component s layer baseId (sx, sz))"
    using eq distinct_card by fastforce
  have f: "floodFill s layer sx sz
      = Some \<lparr> cells = cells st,
               minX = minX st, minZ = minZ st, maxX = maxX st, maxZ = maxZ st,
               boxW = maxX st - minX st + 1, boxH = maxZ st - minZ st + 1,
               count = length (cells st) \<rparr>"
    using id ne na by (simp add: floodFill_def Let_def falsy_def st_def init_def)
  from fin(1) have "minX st = Min (fst ` component s layer baseId (sx, sz))"
    "maxX st = Max (fst ` component s layer baseId (sx, sz))"
    "minZ st = Min (snd ` component s layer baseId (sx, sz))"
    "maxZ st = Max (snd ` component s layer baseId (sx, sz))"
    by (simp_all add: fillCore_def flip: eq)
  with f eq d c show ?thesis by simp
qed

subsection \<open>Grids of the adapters\<close>

lemma schemGetBlock_bounded:
  "schemGetBlock w h l pal idx x y z = Some d \<Longrightarrow>
   0 \<le> x \<and> x < w \<and> 0 \<le> y \<and> y < h \<and> 0 \<le> z \<and> z < l"
  by (auto simp add: schemGetBlock_def split: if_splits)

lemma litematicGetBlock_bounded:
  "litematicGetBlock w h l states idx x y z = Some d \<Longrightarrow>
   0 \<le> x \<and> x < w \<and> 0 \<le> y \<and> y < h \<and> 0 \<le> z \<and> z < l"
  by (auto simp add: litematicGetBlock_def split: if_splits)

lemma parseSchem_bounded: "parseSchem maxLength nbt = Inr g \<Longrightarrow> bounded g"
  unfolding bounded_def
  by (auto simp add: parseSchem_def split: option.splits sum.splits
      dest: schemGetBlock_bounded)

lemma parseRegion_bounded: "parseRegion le maxLength nm r = Inr g \<Longrightarrow> bounded g"
  unfolding bounded_def
  by (auto simp add: parseRegion_def Let_def split: option.splits sum.splits if_splits prod.splits
      dest: litematicGetBlock_bounded)

lemma parseLitematic_bounded: "parseLitematic le maxLength nbt = Inr g \<Longrightarrow> bounded g"
  by (auto simp add: parseLitematic_def split: option.splits list.splits
      dest: parseRegion_bounded)

lemma caveAirGrid_parsed:
  "parseSchem (Suc maxLength)
     \<lparr> Width = 1, Height = 1, Length = 1, Metadata = None,
       Palette = Some [(''cave_air'', 0)],
       BlockData = Some \<lparr> buffer = [0], byteOffset = 0, byteLength = 1 \<rparr> \<rparr> = Inr caveAirGrid"
  by (simp add: parseSchem_def decodeVarintArray_def newInt32Array_def schemName_def
      schemPaletteList_def
      maxIndex_def paletteSlot_def schemAirIndex_def schemAirState_def falsy_def caveAirGrid_def)

lemma stairsGrid_parsed:
  "parseSchem 4294967295
     \<lparr> Width = 3, Height = 1, Length = 1, Metadata = None,
       Palette = Some stairsPalette,
       BlockData = Some \<lparr> buffer = [0, 1, 2], byteOffset = 0, byteLength = 3 \<rparr> \<rparr>
     = Inr stairsGrid"
proof -
  have "decodeVarints [0, 1, 2] 0 3 = Inr [0, 1, 2]" by code_simp
  then have d: "decodeVarintArray 4294967295 [0, 1, 2] 3 = Inr [0, 1, 2]"
    by (simp add: decodeVarintArray_def newInt32Array_def)
  have p: "schemPaletteList stairsPalette
             = [Some ''minecraft:oak_stairs[facing=north]'',
                Some ''minecraft:oak_stairs[facing=south]'',
                Some ''minecraft:stone'']"
    by code_simp
  have n: "\<not> schemAirIndex stairsPalette 0" "\<not> schemAirIndex stairsPalette 1"
    "\<not> schemAirIndex stairsPalette 2"
    by code_simp+
  show ?thesis
    by (simp add: parseSchem_def d p n schemName_def stairsGrid_def)
qed

lemmas fill_eval =
  schemGetBlock_def schemIndex_def int32At_def orNull_def paletteSlot_def falsy_def
  getBaseBlockId_def isAir_def toLowerCase_def toLowerChar_def splitHead_def

subsection \<open>The region found\<close>

text \<open>
  C4 does not hold as stated: a start cell \<open>cave_air\<close> (no namespace) is not air for \<open>isAir\<close> and
  has the base identifier \<open>cave_air\<close>, yet the fill returns \<open>null\<close>, because the test is
  \<open>isAir('minecraft:' + baseId)\<close>.
\<close>

theorem bare_cave_air_no_region:
  "getBlock caveAirGrid 0 0 0 = Some ''cave_air''
   \<and> \<not> isAir (getBlock caveAirGrid 0 0 0)
   \<and> getBaseBlockId (getBlock caveAirGrid 0 0 0) = Some ''cave_air''
   \<and> floodFill caveAirGrid 0 0 0 = None"
  by (simp add: caveAirGrid_def floodFill_def fill_eval)

text \<open>
  C4, amended: on a grid that answers \<open>null\<close> outside its bounds (both adapters' grids
  do), \<open>floodFill\<close> returns \<open>null\<close> exactly when the start cell has no base identifier
  (no block, or an empty identifier) or its base identifier, which has lost property
  suffix, upper case and \<open>minecraft:\<close>, is \<open>air\<close>, \<open>cave_air\<close> or \<open>void_air\<close>; this is so
  for every start cell that \<open>isAir\<close> classifies as air. Otherwise it returns the
  4-directionally connected component of the start among the in-bounds cells of the layer
  with the start's base identifier, each cell once, with \<open>count\<close> the size of the
  component, \<open>minX\<close>, \<open>maxX\<close>, \<open>minZ\<close>, \<open>maxZ\<close> its exact bounding box, and \<open>w\<close>, \<open>h\<close>
  the box's width and height. The component is defined without reference to the order of
  the traversal.
\<close>

theorem floodFill_region:
  assumes "bounded s"
  shows "(isAir (getBlock s sx layer sz) \<or> falsy (getBaseBlockId (getBlock s sx layer sz))
            \<longrightarrow> floodFill s layer sx sz = None)
     \<and> (floodFill s layer sx sz = None \<longleftrightarrow>
           falsy (getBaseBlockId (getBlock s sx layer sz))
           \<or> getBaseBlockId (getBlock s sx layer sz)
               \<in> {Some ''air'', Some ''cave_air'', Some ''void_air''})
     \<and> (\<forall>baseId. floodFill s layer sx sz \<noteq> None
           \<and> getBaseBlockId (getBlock s sx layer sz) = Some baseId \<longrightarrow>
           (\<exists>r. floodFill s layer sx sz = Some r
              \<and> set (cells r) = component s layer baseId (sx, sz)
              \<and> distinct (cells r)
              \<and> count r = card (component s layer baseId (sx, sz))
              \<and> minX r = Min (fst ` component s layer baseId (sx, sz))
              \<and> maxX r = Max (fst ` component s layer baseId (sx, sz))
              \<and> minZ r = Min (snd ` component s layer baseId (sx, sz))
              \<and> maxZ r = Max (snd ` component s layer baseId (sx, sz))
              \<and> boxW r = maxX r - minX r + 1 \<and> boxH r = maxZ r - minZ r + 1))"
proof (intro conjI allI impI)
  assume "isAir (getBlock s sx layer sz) \<or> falsy (getBaseBlockId (getBlock s sx layer sz))"
  then show "floodFill s layer sx sz = None"
    using isAir_baseId [of "getBlock s sx layer sz"] by (auto simp add: floodFill_None)
next
  show "floodFill s layer sx sz = None \<longleftrightarrow>
           falsy (getBaseBlockId (getBlock s sx layer sz))
           \<or> getBaseBlockId (getBlock s sx layer sz)
               \<in> {Some ''air'', Some ''cave_air'', Some ''void_air''}"
  proof (cases "getBaseBlockId (getBlock s sx layer sz)")
    case None
    then show ?thesis by (simp add: floodFill_None falsy_def)
  next
    case (Some b)
    from baseId_plain [OF Some] have "isAir (Some (''minecraft:'' @ b))
        \<longleftrightarrow> b = ''air'' \<or> b = ''cave_air'' \<or> b = ''void_air''"
      by (rule isAir_namespaced)
    with Some show ?thesis by (simp add: floodFill_None)
  qed
next
  fix baseId
  assume a: "floodFill s layer sx sz \<noteq> None
           \<and> getBaseBlockId (getBlock s sx layer sz) = Some baseId"
  then have "baseId \<noteq> []" "\<not> isAir (Some (''minecraft:'' @ baseId))"
    by (auto simp add: floodFill_None falsy_def)
  with assms a show "\<exists>r. floodFill s layer sx sz = Some r
              \<and> set (cells r) = component s layer baseId (sx, sz)
              \<and> distinct (cells r)
              \<and> count r = card (component s layer baseId (sx, sz))
              \<and> minX r = Min (fst ` component s layer baseId (sx, sz))
              \<and> maxX r = Max (fst ` component s layer baseId (sx, sz))
              \<and> minZ r = Min (snd ` component s layer baseId (sx, sz))
              \<and> maxZ r = Max (snd ` component s layer baseId (sx, sz))
              \<and> boxW r = maxX r - minX r + 1 \<and> boxH r = maxZ r - minZ r + 1"
    by (intro floodFill_Some) simp_all
qed

theorem floodFill_region_witness:
  "bounded stairsGrid
   \<and> floodFill stairsGrid 0 0 0 =
       Some \<lparr> cells = [(0, 0), (1, 0)], minX = 0, minZ = 0, maxX = 1, maxZ = 0,
              boxW = 2, boxH = 1, count = 2 \<rparr>
   \<and> component stairsGrid 0 ''oak_stairs'' (0, 0) = {(0, 0), (1, 0)}
   \<and> floodFill stairsGrid 0 2 0 =
       Some \<lparr> cells = [(2, 0)], minX = 2, minZ = 0, maxX = 2, maxZ = 0,
              boxW = 1, boxH = 1, count = 1 \<rparr>
   \<and> component stairsGrid 0 ''stone'' (2, 0) = {(2, 0)}"
proof -
  have b: "bounded stairsGrid"
    using stairsGrid_parsed by (rule parseSchem_bounded)
  have f: "floodFill stairsGrid 0 0 0 =
       Some \<lparr> cells = [(0, 0), (1, 0)], minX = 0, minZ = 0, maxX = 1, maxZ = 0,
              boxW = 2, boxH = 1, count = 2 \<rparr>"
    by code_simp
  have g: "floodFill stairsGrid 0 2 0 =
       Some \<lparr> cells = [(2, 0)], minX = 2, minZ = 0, maxX = 2, maxZ = 0,
              boxW = 1, boxH = 1, count = 1 \<rparr>"
    by code_simp
  have i: "getBaseBlockId (getBlock stairsGrid 0 0 0) = Some ''oak_stairs''"
    "getBaseBlockId (getBlock stairsGrid 2 0 0) = Some ''stone''"
    by code_simp+
  from floodFill_region [OF b, of 0 0 0] f i(1)
  have 1: "component stairsGrid 0 ''oak_stairs'' (0, 0) = {(0, 0), (1, 0)}"
    by auto
  from floodFill_region [OF b, of 2 0 0] g i(2)
  have 2: "component stairsGrid 0 ''stone'' (2, 0) = {(2, 0)}"
    by auto
  from b f g 1 2 show ?thesis by (intro conjI)
qed

section \<open>Spatial addressing\<close>

lemma flat_index_in_range:
  fixes w h l x y z :: int
  assumes "0 \<le> x" "x < w" "0 \<le> y" "y < h" "0 \<le> z" "z < l"
  shows "0 \<le> x + z * w + y * w * l" and "x + z * w + y * w * l < w * h * l"
proof -
  from assms have w: "0 < w" and l: "0 < l" by linarith+
  have zw: "0 \<le> z * w" using assms(5) w by simp
  have ywl: "0 \<le> y * (w * l)" using assms(3) w l by simp
  from assms(1) zw ywl show "0 \<le> x + z * w + y * w * l" by (simp add: mult.assoc)
  have "z + 1 \<le> l" using assms(6) by simp
  then have "(z + 1) * w \<le> l * w" using w by (intro mult_right_mono) simp_all
  then have 1: "x + z * w < w * l" using assms(2) by (simp add: algebra_simps)
  have "y + 1 \<le> h" using assms(4) by simp
  then have "(y + 1) * (w * l) \<le> h * (w * l)"
    using w l by (intro mult_right_mono) simp_all
  then have "y * (w * l) + w * l \<le> w * h * l" by (simp add: algebra_simps)
  with 1 show "x + z * w + y * w * l < w * h * l" by (simp add: mult.assoc)
qed

text \<open>
  C5: with equal dimensions the two adapters address the flat index array alike. For an
  in-range coordinate the dense-varint index \<open>x + z*Width + y*Width*Length\<close> and the
  bit-packed index \<open>y*Length*Width + z*Width + x\<close> are the same position, it lies within
  an array of \<open>Width*Height*Length\<close> elements, and each adapter's \<open>getBlock\<close> answers with
  what its palette holds at the index stored at that one position of the array.
\<close>

theorem adapters_same_index:
  assumes "0 \<le> x" "x < w" "0 \<le> y" "y < h" "0 \<le> z" "z < l"
  shows "schemIndex w l x y z = litematicIndex w l x y z
   \<and> schemIndex w l x y z = x + z * w + y * w * l
   \<and> 0 \<le> schemIndex w l x y z \<and> schemIndex w l x y z < w * h * l
   \<and> (int (length blockIndices) = w * h * l \<longrightarrow>
        int32At blockIndices (schemIndex w l x y z)
          = Some (sint (blockIndices ! nat (x + z * w + y * w * l))))
   \<and> schemGetBlock w h l paletteTag blockIndices x y z
       = (case int32At blockIndices (x + z * w + y * w * l) of
            None \<Rightarrow> None
          | Some paletteIdx \<Rightarrow> orNull (paletteSlot paletteTag paletteIdx))
   \<and> litematicGetBlock w h l states blockIndices x y z
       = (case int32At blockIndices (x + z * w + y * w * l) of
            None \<Rightarrow> None
          | Some paletteIdx \<Rightarrow> orNull (stateAt states paletteIdx))
   \<and> ((\<forall>i. paletteSlot paletteTag i = stateAt states i) \<longrightarrow>
        schemGetBlock w h l paletteTag blockIndices x y z
          = litematicGetBlock w h l states blockIndices x y z)"
proof -
  have e: "litematicIndex w l x y z = x + z * w + y * w * l"
    by (simp add: litematicIndex_def algebra_simps)
  have s: "schemIndex w l x y z = x + z * w + y * w * l"
    by (simp add: schemIndex_def)
  note r = flat_index_in_range [OF assms]
  have g1: "schemGetBlock w h l paletteTag blockIndices x y z
       = (case int32At blockIndices (x + z * w + y * w * l) of
            None \<Rightarrow> None
          | Some paletteIdx \<Rightarrow> orNull (paletteSlot paletteTag paletteIdx))"
    using assms by (simp add: schemGetBlock_def s)
  have g2: "litematicGetBlock w h l states blockIndices x y z
       = (case int32At blockIndices (x + z * w + y * w * l) of
            None \<Rightarrow> None
          | Some paletteIdx \<Rightarrow> orNull (stateAt states paletteIdx))"
    using assms by (simp add: litematicGetBlock_def e)
  have a: "int32At blockIndices (schemIndex w l x y z)
          = Some (sint (blockIndices ! nat (x + z * w + y * w * l)))"
    if "int (length blockIndices) = w * h * l"
    using that r by (simp add: int32At_def s)
  have c: "schemGetBlock w h l paletteTag blockIndices x y z
          = litematicGetBlock w h l states blockIndices x y z"
    if "\<forall>i. paletteSlot paletteTag i = stateAt states i"
    using that by (simp add: g1 g2 split: option.split)
  from e s r g1 g2 a c show ?thesis by simp
qed

theorem adapters_same_index_witness:
  "schemIndex 2 2 1 1 1 = litematicIndex 2 2 1 1 1
   \<and> schemIndex 2 2 1 1 1 = 7
   \<and> schemGetBlock 2 2 2 [(''minecraft:air'', 0), (''minecraft:stone'', 1)]
        [0, 0, 0, 0, 0, 0, 0, 1] 1 1 1 = Some ''minecraft:stone''
   \<and> litematicGetBlock 2 2 2 [''minecraft:air'', ''minecraft:stone'']
        [0, 0, 0, 0, 0, 0, 0, 1] 1 1 1 = Some ''minecraft:stone''
   \<and> schemGetBlock 2 2 2 [(''minecraft:air'', 0), (''minecraft:stone'', 1)]
        [0, 0, 0, 0, 0, 0, 1, 0] 1 1 1 = Some ''minecraft:air''"
proof -
  have h: "(0::int) \<le> 1" "(1::int) < 2" by simp_all
  note t = adapters_same_index [OF h h h]
  have i: "int32At [0, 0, 0, 0, 0, 0, 0, 1] 7 = Some 1"
    "int32At [0, 0, 0, 0, 0, 0, 1, 0] 7 = Some 0"
    by (simp_all add: int32At_def)
  have p: "orNull (paletteSlot [(''minecraft:air'', 0), (''minecraft:stone'', 1)] 1)
             = Some ''minecraft:stone''"
    "orNull (paletteSlot [(''minecraft:air'', 0), (''minecraft:stone'', 1)] 0)
             = Some ''minecraft:air''"
    "orNull (stateAt [''minecraft:air'', ''minecraft:stone''] 1) = Some ''minecraft:stone''"
    by (simp_all add: orNull_def paletteSlot_def stateAt_def falsy_def)
  note t1 = t [where blockIndices = "[0, 0, 0, 0, 0, 0, 0, 1]"
      and paletteTag = "[(''minecraft:air'', 0), (''minecraft:stone'', 1)]"
      and states = "[''minecraft:air'', ''minecraft:stone'']"]
  note t2 = t [where blockIndices = "[0, 0, 0, 0, 0, 0, 1, 0]"
      and paletteTag = "[(''minecraft:air'', 0), (''minecraft:stone'', 1)]"
      and states = "[''minecraft:air'', ''minecraft:stone'']"]
  from t1 [THEN conjunct1] have 1: "schemIndex 2 2 1 1 1 = litematicIndex 2 2 1 1 1" .
  from t1 [THEN conjunct2, THEN conjunct1] have 2: "schemIndex 2 2 1 1 1 = 7" by simp
  from t1 [THEN conjunct2, THEN conjunct2, THEN conjunct2, THEN conjunct2, THEN conjunct2,
      THEN conjunct1]
  have 3: "schemGetBlock 2 2 2 [(''minecraft:air'', 0), (''minecraft:stone'', 1)]
        [0, 0, 0, 0, 0, 0, 0, 1] 1 1 1 = Some ''minecraft:stone''"
    by (simp add: i p)
  from t1 [THEN conjunct2, THEN conjunct2, THEN conjunct2, THEN conjunct2, THEN conjunct2,
      THEN conjunct2, THEN conjunct1]
  have 4: "litematicGetBlock 2 2 2 [''minecraft:air'', ''minecraft:stone'']
        [0, 0, 0, 0, 0, 0, 0, 1] 1 1 1 = Some ''minecraft:stone''"
    by (simp add: i p)
  from t2 [THEN conjunct2, THEN conjunct2, THEN conjunct2, THEN conjunct2, THEN conjunct2,
      THEN conjunct1]
  have 5: "schemGetBlock 2 2 2 [(''minecraft:air'', 0), (''minecraft:stone'', 1)]
        [0, 0, 0, 0, 0, 0, 1, 0] 1 1 1 = Some ''minecraft:air''"
    by (simp add: i p)
  from 1 2 3 4 5 show ?thesis by (intro conjI)
qed

end
